theory Spec2Isabelle
  imports Complex_Main "HOL-Library.Extended_Nat"
begin

section \<open>Data model of the avoidance edge plugin\<close>

text \<open>
  The plugin routes an edge around the nodes of a diagram. Coordinates are JavaScript
  numbers; they are modelled as exact reals, the spec's "real-valued 2-D coordinate"
  (rounding, NaN and the infinities of IEEE doubles are outside this model). The fields
  \<open>x\<close> and \<open>y\<close> of a point are called \<open>px\<close> and \<open>py\<close>, and the \<open>id\<close> of a node
  \<open>node_id\<close>.
\<close>

record point =
  px :: real
  py :: real

text \<open>The object returned by \<open>node.getBBox()\<close>.\<close>

record rect =
  minX :: real
  minY :: real
  maxX :: real
  maxY :: real

text \<open>
  A node model of the host, reduced to what \<open>calculatePath\<close> reads of it: its id, the
  value of \<open>getAnchorPosition()\<close> (\<open>None\<close> when the host returns undefined) and the
  value of \<open>getBBox()\<close>.
\<close>

record node =
  node_id :: string
  getAnchorPosition :: "point option"
  getBBox :: rect

text \<open>
  An edge model: its optional start and end points and its current \<open>pointsList\<close>
  (\<open>None\<close> when the property is undefined).
\<close>

record edge =
  startPoint :: "point option"
  endPoint :: "point option"
  pointsList :: "point list option"

section \<open>Geometry: \<open>doLineSegmentsIntersect\<close>, \<open>isLineIntersectingRect\<close>\<close>

text \<open>The inner function \<open>orientation\<close>: 0 collinear, 1 clockwise, 2 counterclockwise.\<close>

definition orientation :: "point \<Rightarrow> point \<Rightarrow> point \<Rightarrow> nat" where
  "orientation p q r =
     (let val = (py q - py p) * (px r - px q) - (px q - px p) * (py r - py q)
      in if val = 0 then 0 else if val > 0 then 1 else 2)"

definition onSegment :: "point \<Rightarrow> point \<Rightarrow> point \<Rightarrow> bool" where
  "onSegment p q r =
     (px q \<le> max (px p) (px r) \<and> px q \<ge> min (px p) (px r) \<and>
      py q \<le> max (py p) (py r) \<and> py q \<ge> min (py p) (py r))"

definition doLineSegmentsIntersect :: "point \<Rightarrow> point \<Rightarrow> point \<Rightarrow> point \<Rightarrow> bool" where
  "doLineSegmentsIntersect p1 p2 p3 p4 =
     (let o1 = orientation p1 p2 p3;
          o2 = orientation p1 p2 p4;
          o3 = orientation p3 p4 p1;
          o4 = orientation p3 p4 p2
      in if o1 \<noteq> o2 \<and> o3 \<noteq> o4 then True
         else if o1 = 0 \<and> onSegment p1 p3 p2 then True
         else if o2 = 0 \<and> onSegment p1 p4 p2 then True
         else if o3 = 0 \<and> onSegment p3 p1 p4 then True
         else if o4 = 0 \<and> onSegment p3 p2 p4 then True
         else False)"

text \<open>
  The array \<open>segments\<close> of \<open>isLineIntersectingRect\<close>: bottom, right, top and left side,
  each as its two end points.
\<close>

definition segments :: "rect \<Rightarrow> (point \<times> point) list" where
  "segments r =
     [(\<lparr>px = minX r, py = minY r\<rparr>, \<lparr>px = maxX r, py = minY r\<rparr>),
      (\<lparr>px = maxX r, py = minY r\<rparr>, \<lparr>px = maxX r, py = maxY r\<rparr>),
      (\<lparr>px = maxX r, py = maxY r\<rparr>, \<lparr>px = minX r, py = maxY r\<rparr>),
      (\<lparr>px = minX r, py = maxY r\<rparr>, \<lparr>px = minX r, py = minY r\<rparr>)]"

definition isLineIntersectingRect :: "point \<Rightarrow> point \<Rightarrow> rect \<Rightarrow> bool" where
  "isLineIntersectingRect p1 p2 r =
     (if px p1 = px p2 \<and> py p1 = py p2
      then px p1 \<ge> minX r \<and> px p1 \<le> maxX r \<and> py p1 \<ge> minY r \<and> py p1 \<le> maxY r
      else if px p1 \<ge> minX r \<and> px p1 \<le> maxX r \<and> py p1 \<ge> minY r \<and> py p1 \<le> maxY r
        then True
      else if px p2 \<ge> minX r \<and> px p2 \<le> maxX r \<and> py p2 \<ge> minY r \<and> py p2 \<le> maxY r
        then True
      else list_ex (\<lambda>seg. doLineSegmentsIntersect p1 p2 (fst seg) (snd seg)) (segments r))"

text \<open>
  \<open>isPathIntersectingNode\<close>: false for a path of fewer than two points, otherwise the
  loop over the consecutive point pairs, which returns at the first pair that
  intersects the node's bounding box.
\<close>

fun isPathIntersectingNode :: "point list \<Rightarrow> node \<Rightarrow> bool" where
  "isPathIntersectingNode (p1 # p2 # ps) n =
     (if isLineIntersectingRect p1 p2 (getBBox n) then True
      else isPathIntersectingNode (p2 # ps) n)"
| "isPathIntersectingNode ps n = False"

text \<open>
  The spec's \<open>pointInRect\<close> (section 4.1), in the spec's words: inclusive on all four
  sides. The code has no such function; it writes the comparison out.
\<close>

definition pointInRect :: "point \<Rightarrow> rect \<Rightarrow> bool" where
  "pointInRect p r = (minX r \<le> px p \<and> px p \<le> maxX r \<and> minY r \<le> py p \<and> py p \<le> maxY r)"

section \<open>The candidate search of \<open>calculatePath\<close>\<close>

text \<open>
  \<open>checkAndCountObstructions\<close>: the counter starts at 0 and is incremented once for each
  obstacle that \<open>isPathIntersectingNode\<close> reports. The double-bend search writes the same
  loop inline (\<open>obsCount\<close>).
\<close>

definition checkAndCountObstructions :: "node list \<Rightarrow> point list \<Rightarrow> nat" where
  "checkAndCountObstructions obstacles p =
     foldl (\<lambda>obstructions obsNode.
              if isPathIntersectingNode p obsNode then obstructions + 1 else obstructions)
       0 obstacles"

text \<open>
  The two variables of the search: \<open>bestPath\<close>, initially null, and \<open>minObstructions\<close>,
  initially Infinity.
\<close>

record search =
  bestPath :: "point list option"
  minObstructions :: enat

definition initialSearch :: search where
  "initialSearch = \<lparr>bestPath = None, minObstructions = \<infinity>\<rparr>"

text \<open>
  The statement \<open>if (obsCount < minObstructions) { minObstructions = obsCount; bestPath = p }\<close>,
  which the source repeats for each of its three kinds of candidate.
\<close>

definition keepIfBetter :: "nat \<Rightarrow> point list \<Rightarrow> search \<Rightarrow> search" where
  "keepIfBetter obsCount p st =
     (if enat obsCount < minObstructions st
      then \<lparr>bestPath = Some p, minObstructions = enat obsCount\<rparr>
      else st)"

definition offsets :: "real list" where
  "offsets = [0, 20, -20, 40, -40, 60, -60]"

text \<open>The candidates, as the source builds them from the start and end point.\<close>

definition path1 :: "point \<Rightarrow> point \<Rightarrow> real \<Rightarrow> real \<Rightarrow> point list" where
  "path1 s e dx dy =
     [\<lparr>px = px s, py = py s\<rparr>,
      \<lparr>px = (px s + px e) / 2 + dx, py = py s + dy\<rparr>,
      \<lparr>px = px e, py = py e\<rparr>]"

definition path2 :: "point \<Rightarrow> point \<Rightarrow> real \<Rightarrow> real \<Rightarrow> point list" where
  "path2 s e dx dy =
     [\<lparr>px = px s, py = py s\<rparr>,
      \<lparr>px = (px s + px e) / 2 + dx, py = py e + dy\<rparr>,
      \<lparr>px = px e, py = py e\<rparr>]"

definition candidatePath :: "point \<Rightarrow> point \<Rightarrow> real \<Rightarrow> real \<Rightarrow> real \<Rightarrow> real \<Rightarrow> point list" where
  "candidatePath s e dx1 dy1 dx2 dy2 =
     [\<lparr>px = px s, py = py s\<rparr>,
      \<lparr>px = px s + dx1, py = (py s + py e) / 2 + dy1\<rparr>,
      \<lparr>px = px e + dx2, py = (py s + py e) / 2 + dy2\<rparr>,
      \<lparr>px = px e, py = py e\<rparr>]"

text \<open>
  The inner loop of the single-bend search, over \<open>dy\<close>: \<open>continue\<close> at \<open>dx = dy = 0\<close> when
  the direct path is obstructed, \<open>break\<close> as soon as one of the two candidates has no
  obstruction.
\<close>

fun singleBendInner ::
  "node list \<Rightarrow> bool \<Rightarrow> point \<Rightarrow> point \<Rightarrow> real \<Rightarrow> real list \<Rightarrow> search \<Rightarrow> search" where
  "singleBendInner obstacles pathIsObstructed s e dx [] st = st"
| "singleBendInner obstacles pathIsObstructed s e dx (dy # dys) st =
     (if dx = 0 \<and> dy = 0 \<and> pathIsObstructed
      then singleBendInner obstacles pathIsObstructed s e dx dys st
      else if checkAndCountObstructions obstacles (path1 s e dx dy) = 0
      then keepIfBetter (checkAndCountObstructions obstacles (path1 s e dx dy)) (path1 s e dx dy) st
      else if checkAndCountObstructions obstacles (path2 s e dx dy) = 0
      then keepIfBetter (checkAndCountObstructions obstacles (path2 s e dx dy)) (path2 s e dx dy)
             (keepIfBetter (checkAndCountObstructions obstacles (path1 s e dx dy)) (path1 s e dx dy) st)
      else singleBendInner obstacles pathIsObstructed s e dx dys
             (keepIfBetter (checkAndCountObstructions obstacles (path2 s e dx dy)) (path2 s e dx dy)
               (keepIfBetter (checkAndCountObstructions obstacles (path1 s e dx dy)) (path1 s e dx dy) st)))"

text \<open>
  A loop \<open>for (const d of ds) { body; if (minObstructions === 0) break; }\<close>: the shape of
  the outer single-bend loop and of the four nested double-bend loops.
\<close>

fun forUntilClear :: "(real \<Rightarrow> search \<Rightarrow> search) \<Rightarrow> real list \<Rightarrow> search \<Rightarrow> search" where
  "forUntilClear body [] st = st"
| "forUntilClear body (d # ds) st =
     (if minObstructions (body d st) = 0 then body d st
      else forUntilClear body ds (body d st))"

definition singleBendSearch :: "node list \<Rightarrow> bool \<Rightarrow> point \<Rightarrow> point \<Rightarrow> search \<Rightarrow> search" where
  "singleBendSearch obstacles pathIsObstructed s e st =
     forUntilClear (\<lambda>dx. singleBendInner obstacles pathIsObstructed s e dx offsets) offsets st"

definition doubleBendSearch :: "node list \<Rightarrow> point \<Rightarrow> point \<Rightarrow> search \<Rightarrow> search" where
  "doubleBendSearch obstacles s e st =
     forUntilClear (\<lambda>dx1.
       forUntilClear (\<lambda>dy1.
         forUntilClear (\<lambda>dx2.
           forUntilClear (\<lambda>dy2.
             keepIfBetter (checkAndCountObstructions obstacles (candidatePath s e dx1 dy1 dx2 dy2))
               (candidatePath s e dx1 dy1 dx2 dy2))
           offsets)
         offsets)
       offsets)
     offsets st"

text \<open>
  Both searches in sequence: the double-bend search runs only if the single-bend search
  ended with \<open>minObstructions > 0\<close>.
\<close>

definition bendSearch :: "node list \<Rightarrow> bool \<Rightarrow> point \<Rightarrow> point \<Rightarrow> search" where
  "bendSearch obstacles pathIsObstructed s e =
     (let st = singleBendSearch obstacles pathIsObstructed s e initialSearch
      in if minObstructions st > 0 then doubleBendSearch obstacles s e st else st)"

section \<open>\<open>calculatePath\<close>\<close>

text \<open>
  \<open>edge.startPoint || sourceNode.getAnchorPosition()\<close>: a point object is truthy, so the
  fallback is taken exactly when the edge has no point of its own.
\<close>

definition resolveStart :: "edge \<Rightarrow> node \<Rightarrow> point option" where
  "resolveStart edge sourceNode =
     (case startPoint edge of Some p \<Rightarrow> Some p | None \<Rightarrow> getAnchorPosition sourceNode)"

definition resolveEnd :: "edge \<Rightarrow> node \<Rightarrow> point option" where
  "resolveEnd edge targetNode =
     (case endPoint edge of Some p \<Rightarrow> Some p | None \<Rightarrow> getAnchorPosition targetNode)"

text \<open>The obstacles: all nodes but the source and the target of the edge.\<close>

definition obstaclesOf :: "node \<Rightarrow> node \<Rightarrow> node list \<Rightarrow> node list" where
  "obstaclesOf sourceNode targetNode allNodes =
     filter (\<lambda>n. node_id n \<noteq> node_id sourceNode \<and> node_id n \<noteq> node_id targetNode) allNodes"

definition potentialPath :: "point \<Rightarrow> point \<Rightarrow> point list" where
  "potentialPath s e = [\<lparr>px = px s, py = py s\<rparr>, \<lparr>px = px e, py = py e\<rparr>]"

text \<open>
  The first loop of \<open>calculatePath\<close>: \<open>pathIsObstructed\<close> becomes true at the first obstacle
  the direct path intersects.
\<close>

definition pathIsObstructed :: "node list \<Rightarrow> point \<Rightarrow> point \<Rightarrow> bool" where
  "pathIsObstructed obstacles s e = list_ex (isPathIntersectingNode (potentialPath s e)) obstacles"

text \<open>
  The part of \<open>calculatePath\<close> after both points are known. The result is an optional
  list because the last return can hand back \<open>edge.pointsList\<close>; both branches on
  \<open>bestPath\<close> return it, and the final fallback is
  \<open>edge.pointsList && edge.pointsList.length > 0 ? edge.pointsList : potentialPath\<close>.
\<close>

definition routeBetween :: "edge \<Rightarrow> node list \<Rightarrow> point \<Rightarrow> point \<Rightarrow> point list option" where
  "routeBetween edge obstacles s e =
     (if \<not> pathIsObstructed obstacles s e then Some (potentialPath s e)
      else
        (case bestPath (bendSearch obstacles (pathIsObstructed obstacles s e) s e) of
           Some best \<Rightarrow> Some best
         | None \<Rightarrow>
             (case pointsList edge of
                Some pl \<Rightarrow> if length pl > 0 then Some pl else Some (potentialPath s e)
              | None \<Rightarrow> Some (potentialPath s e))))"

text \<open>
  \<open>calculatePath\<close>: when the start or the end point is missing it returns
  \<open>edge.pointsList\<close> as it is (possibly undefined, \<open>None\<close>).
\<close>

definition calculatePath :: "edge \<Rightarrow> node \<Rightarrow> node \<Rightarrow> node list \<Rightarrow> point list option" where
  "calculatePath edge sourceNode targetNode allNodes =
     (case resolveStart edge sourceNode of
        None \<Rightarrow> pointsList edge
      | Some s \<Rightarrow>
          (case resolveEnd edge targetNode of
             None \<Rightarrow> pointsList edge
           | Some e \<Rightarrow> routeBetween edge (obstaclesOf sourceNode targetNode allNodes) s e))"

section \<open>The candidates of the lattice, and the spec's obstruction count\<close>

text \<open>
  Every single-bend candidate the search can evaluate once the direct path is
  obstructed (the pair \<open>dx = 0\<close>, \<open>dy = 0\<close> is skipped), in the order of the loops, and
  every double-bend candidate.
\<close>

definition singleBendCandidates :: "point \<Rightarrow> point \<Rightarrow> point list list" where
  "singleBendCandidates s e =
     concat (map (\<lambda>dx. concat (map (\<lambda>dy.
       if dx = 0 \<and> dy = 0 then [] else [path1 s e dx dy, path2 s e dx dy]) offsets)) offsets)"

definition doubleBendCandidates :: "point \<Rightarrow> point \<Rightarrow> point list list" where
  "doubleBendCandidates s e =
     concat (map (\<lambda>dx1. concat (map (\<lambda>dy1. concat (map (\<lambda>dx2.
       map (\<lambda>dy2. candidatePath s e dx1 dy1 dx2 dy2) offsets) offsets)) offsets)) offsets)"

text \<open>
  The spec's \<open>pathObstructionCount\<close> (section 4.1), in the spec's words: the sum, over
  every consecutive point pair of the path and every obstacle, of 1 if the segment
  intersects the obstacle's rectangle, else 0.
\<close>

definition pathObstructionCount :: "point list \<Rightarrow> rect list \<Rightarrow> nat" where
  "pathObstructionCount points rects =
     sum_list (map (\<lambda>seg.
       sum_list (map (\<lambda>r. if isLineIntersectingRect (fst seg) (snd seg) r then 1 else 0) rects))
       (zip points (tl points)))"

section \<open>Predicates for reasoning about the search\<close>

text \<open>
  The invariant of the search: \<open>bestPath\<close> is null exactly as long as \<open>minObstructions\<close>
  is Infinity, and otherwise it is a candidate whose count is \<open>minObstructions\<close>.
\<close>

definition searchInv :: "point list set \<Rightarrow> (point list \<Rightarrow> nat) \<Rightarrow> search \<Rightarrow> bool" where
  "searchInv C cnt st =
     (case bestPath st of
        None \<Rightarrow> minObstructions st = \<infinity>
      | Some p \<Rightarrow> p \<in> C \<and> minObstructions st = enat (cnt p))"

text \<open>
  What a stretch of the search achieves on the candidates \<open>D\<close> it ranges over: the
  minimum never grows, and unless it has reached 0 (where the loops stop early) it is
  at most the count of every candidate of \<open>D\<close>.
\<close>

definition improves :: "(point list \<Rightarrow> nat) \<Rightarrow> point list set \<Rightarrow> search \<Rightarrow> search \<Rightarrow> bool" where
  "improves cnt D st st' =
     (minObstructions st' \<le> minObstructions st \<and>
      (minObstructions st' = 0 \<or> (\<forall>c\<in>D. minObstructions st' \<le> enat (cnt c))))"

text \<open>The candidates the inner single-bend loop evaluates for one \<open>dx\<close>.\<close>

definition innerCandidates :: "point \<Rightarrow> point \<Rightarrow> real \<Rightarrow> real list \<Rightarrow> point list set" where
  "innerCandidates s e dx dys =
     {p. \<exists>dy\<in>set dys. \<not> (dx = 0 \<and> dy = 0) \<and> (p = path1 s e dx dy \<or> p = path2 s e dx dy)}"

section \<open>Example diagrams\<close>

text \<open>
  The scenario of the spec's section 8: an edge from (0,0) to (200,0) and a node whose
  box (80,-20)-(120,20) lies across the straight line. Here and below an edge that
  carries its own start and end point is routed between these; a node's anchor position
  is consulted only for a point the edge lacks, and the boxes of the source and the
  target node are never obstacles.
\<close>

definition exSource :: node where
  "exSource = \<lparr>node_id = ''source'', getAnchorPosition = Some \<lparr>px = 0, py = 0\<rparr>,
     getBBox = \<lparr>minX = -50, minY = -20, maxX = 0, maxY = 20\<rparr>\<rparr>"

definition exTarget :: node where
  "exTarget = \<lparr>node_id = ''target'', getAnchorPosition = Some \<lparr>px = 200, py = 0\<rparr>,
     getBBox = \<lparr>minX = 200, minY = -20, maxX = 250, maxY = 20\<rparr>\<rparr>"

definition exBlock :: node where
  "exBlock = \<lparr>node_id = ''block'', getAnchorPosition = Some \<lparr>px = 100, py = 0\<rparr>,
     getBBox = \<lparr>minX = 80, minY = -20, maxX = 120, maxY = 20\<rparr>\<rparr>"

definition exEdge :: edge where
  "exEdge = \<lparr>startPoint = Some \<lparr>px = 0, py = 0\<rparr>, endPoint = Some \<lparr>px = 200, py = 0\<rparr>,
     pointsList = Some [\<lparr>px = 0, py = 0\<rparr>, \<lparr>px = 200, py = 0\<rparr>]\<rparr>"

text \<open>An edge between the same nodes that passes above the block, from (0,100) to (200,100).\<close>

definition exHighEdge :: edge where
  "exHighEdge = \<lparr>startPoint = Some \<lparr>px = 0, py = 100\<rparr>, endPoint = Some \<lparr>px = 200, py = 100\<rparr>,
     pointsList = None\<rparr>"

text \<open>
  An edge without points of its own whose source node reports no anchor position; its
  current path has three points.
\<close>

definition exNoAnchor :: node where
  "exNoAnchor = \<lparr>node_id = ''source'', getAnchorPosition = None,
     getBBox = \<lparr>minX = -50, minY = -20, maxX = 0, maxY = 20\<rparr>\<rparr>"

definition exUnanchoredEdge :: edge where
  "exUnanchoredEdge = \<lparr>startPoint = None, endPoint = None,
     pointsList = Some [\<lparr>px = 0, py = 0\<rparr>, \<lparr>px = 100, py = 40\<rparr>, \<lparr>px = 200, py = 0\<rparr>]\<rparr>"

text \<open>
  A node whose box (-10,-10)-(60,30) covers the start point (0,0) of an edge to (100,0):
  every path that leaves the start point intersects it.
\<close>

definition exCover :: node where
  "exCover = \<lparr>node_id = ''cover'', getAnchorPosition = None,
     getBBox = \<lparr>minX = -10, minY = -10, maxX = 60, maxY = 30\<rparr>\<rparr>"

definition exShortEdge :: edge where
  "exShortEdge = \<lparr>startPoint = Some \<lparr>px = 0, py = 0\<rparr>, endPoint = Some \<lparr>px = 100, py = 0\<rparr>,
     pointsList = None\<rparr>"

text \<open>
  A vertical edge from (0,0) to (0,20) whose start point lies in the box (-5,-5)-(5,5) of
  another node.
\<close>

definition exSmall :: node where
  "exSmall = \<lparr>node_id = ''small'', getAnchorPosition = None,
     getBBox = \<lparr>minX = -5, minY = -5, maxX = 5, maxY = 5\<rparr>\<rparr>"

definition exVerticalEdge :: edge where
  "exVerticalEdge = \<lparr>startPoint = Some \<lparr>px = 0, py = 0\<rparr>, endPoint = Some \<lparr>px = 0, py = 20\<rparr>,
     pointsList = None\<rparr>"

text \<open>A degenerate edge whose start and end point are both (0,0).\<close>

definition exPointEdge :: edge where
  "exPointEdge = \<lparr>startPoint = Some \<lparr>px = 0, py = 0\<rparr>, endPoint = Some \<lparr>px = 0, py = 0\<rparr>,
     pointsList = None\<rparr>"

text \<open>
  A diagonal edge from (0,0) to (10,10) among six nodes: a zero-size node at the start
  point, four large nodes around the square between the two points, and a zero-size
  node at (0,5). None but the first touches the straight line.
\<close>

definition exPin :: node where
  "exPin = \<lparr>node_id = ''pin'', getAnchorPosition = None,
     getBBox = \<lparr>minX = 0, minY = 0, maxX = 0, maxY = 0\<rparr>\<rparr>"

definition exRight :: node where
  "exRight = \<lparr>node_id = ''right'', getAnchorPosition = None,
     getBBox = \<lparr>minX = 15, minY = -100, maxX = 100, maxY = 100\<rparr>\<rparr>"

definition exLeft :: node where
  "exLeft = \<lparr>node_id = ''left'', getAnchorPosition = None,
     getBBox = \<lparr>minX = -100, minY = -100, maxX = -5, maxY = 100\<rparr>\<rparr>"

definition exTop :: node where
  "exTop = \<lparr>node_id = ''top'', getAnchorPosition = None,
     getBBox = \<lparr>minX = -100, minY = 15, maxX = 100, maxY = 100\<rparr>\<rparr>"

definition exBottom :: node where
  "exBottom = \<lparr>node_id = ''bottom'', getAnchorPosition = None,
     getBBox = \<lparr>minX = -100, minY = -100, maxX = 100, maxY = -5\<rparr>\<rparr>"

definition exPost :: node where
  "exPost = \<lparr>node_id = ''post'', getAnchorPosition = None,
     getBBox = \<lparr>minX = 0, minY = 5, maxX = 0, maxY = 5\<rparr>\<rparr>"

definition exRing :: "node list" where
  "exRing = [exPin, exRight, exLeft, exTop, exBottom, exPost]"

definition exDiagonalEdge :: edge where
  "exDiagonalEdge = \<lparr>startPoint = Some \<lparr>px = 0, py = 0\<rparr>, endPoint = Some \<lparr>px = 10, py = 10\<rparr>,
     pointsList = None\<rparr>"

section \<open>The duplicate filter of the sibling plugin (\<open>updateEdgePath\<close>)\<close>

text \<open>
  The TypeScript plugin \<open>AvoidancePlugin\<close> ends its \<open>updateEdgePath\<close> with
  \<open>newPointsList.filter((point, index, self) => index === 0 ||
  !(point.x === self[index - 1].x && point.y === self[index - 1].y))\<close>.
  \<open>keepsPoint\<close> is the callback, applied to an index and the point at that index.
\<close>

definition keepsPoint :: "point list \<Rightarrow> nat \<times> point \<Rightarrow> bool" where
  "keepsPoint self ip =
     (fst ip = 0 \<or>
      \<not> (px (snd ip) = px (self ! (fst ip - 1)) \<and> py (snd ip) = py (self ! (fst ip - 1))))"

definition filterConsecutiveDuplicates :: "point list \<Rightarrow> point list" where
  "filterConsecutiveDuplicates self = map snd (filter (keepsPoint self) (List.enumerate 0 self))"

section \<open>Lemmas about the count and the loops\<close>

lemma count_foldl:
  "foldl (\<lambda>k n. if P n then k + 1 else k) (a::nat) ns = a + length (filter P ns)"
  by (induction ns arbitrary: a) auto

lemma checkAndCountObstructions_filter:
  "checkAndCountObstructions obstacles p = length (filter (isPathIntersectingNode p) obstacles)"
  unfolding checkAndCountObstructions_def by (simp add: count_foldl)

lemma isPathIntersectingNode_pairs:
  "isPathIntersectingNode p n =
     list_ex (\<lambda>seg. isLineIntersectingRect (fst seg) (snd seg) (getBBox n)) (zip p (tl p))"
  by (induction p n rule: isPathIntersectingNode.induct) auto

lemma searchInv_initial: "searchInv C cnt initialSearch"
  by (simp add: searchInv_def initialSearch_def)

lemma searchInv_keep:
  "searchInv C cnt st \<Longrightarrow> p \<in> C \<Longrightarrow> searchInv C cnt (keepIfBetter (cnt p) p st)"
  by (simp add: searchInv_def keepIfBetter_def)

lemma searchInv_Some:
  "searchInv C cnt st \<Longrightarrow> minObstructions st \<noteq> \<infinity> \<Longrightarrow>
     \<exists>p. bestPath st = Some p \<and> p \<in> C \<and> minObstructions st = enat (cnt p)"
  by (cases "bestPath st") (auto simp: searchInv_def)

lemma keepIfBetter_unchanged: "minObstructions st \<le> enat c \<Longrightarrow> keepIfBetter c p st = st"
  by (simp add: keepIfBetter_def)

lemma improves_keep: "improves cnt {p} st (keepIfBetter (cnt p) p st)"
  by (auto simp: improves_def keepIfBetter_def)

lemma improves_keep_clear: "cnt p = 0 \<Longrightarrow> improves cnt D st (keepIfBetter (cnt p) p st)"
  by (auto simp: improves_def keepIfBetter_def zero_enat_def [symmetric])

lemma improves_trans:
  "improves cnt D1 st st1 \<Longrightarrow> improves cnt D2 st1 st2 \<Longrightarrow> improves cnt (D1 \<union> D2) st st2"
  unfolding improves_def by (metis Un_iff order_trans le_zero_eq)

lemma improves_stop:
  "improves cnt D1 st st1 \<Longrightarrow> minObstructions st1 = 0 \<Longrightarrow> improves cnt D st st1"
  by (simp add: improves_def)

lemma improves_finite:
  assumes "improves cnt D st st'" and "c \<in> D"
  shows "minObstructions st' \<noteq> \<infinity>"
proof
  assume inf: "minObstructions st' = \<infinity>"
  from assms have "minObstructions st' = 0 \<or> minObstructions st' \<le> enat (cnt c)"
    unfolding improves_def by blast
  with inf show False by simp
qed

lemma forUntilClear_preserves:
  assumes "\<And>d st. d \<in> set ds \<Longrightarrow> I st \<Longrightarrow> I (body d st)" and "I st"
  shows "I (forUntilClear body ds st)"
  using assms by (induction ds arbitrary: st) auto

lemma forUntilClear_improves:
  assumes "\<And>d st. d \<in> set ds \<Longrightarrow> improves cnt (D d) st (body d st)"
  shows "improves cnt (\<Union>d\<in>set ds. D d) st (forUntilClear body ds st)"
  using assms
proof (induction ds arbitrary: st)
  case Nil
  then show ?case by (simp add: improves_def)
next
  case (Cons d ds)
  have step: "improves cnt (D d) st (body d st)" using Cons.prems by simp
  show ?case
  proof (cases "minObstructions (body d st) = 0")
    case True
    then show ?thesis using improves_stop [OF step True] by simp
  next
    case False
    have rest: "improves cnt (\<Union>d\<in>set ds. D d) (body d st) (forUntilClear body ds (body d st))"
      using Cons.IH Cons.prems by simp
    show ?thesis using False improves_trans [OF step rest] by simp
  qed
qed

lemma innerCandidates_Cons_skip:
  "dx = 0 \<and> dy = 0 \<Longrightarrow> innerCandidates s e dx (dy # dys) = innerCandidates s e dx dys"
  by (auto simp: innerCandidates_def)

lemma innerCandidates_Cons:
  "\<not> (dx = 0 \<and> dy = 0) \<Longrightarrow>
     innerCandidates s e dx (dy # dys) =
       ({path1 s e dx dy} \<union> {path2 s e dx dy}) \<union> innerCandidates s e dx dys"
  by (auto simp: innerCandidates_def)

lemma singleBendCandidates_inner:
  "set (singleBendCandidates s e) = (\<Union>dx\<in>set offsets. innerCandidates s e dx offsets)"
  unfolding singleBendCandidates_def innerCandidates_def by auto

lemma doubleBendCandidates_set:
  "set (doubleBendCandidates s e) =
     (\<Union>dx1\<in>set offsets. \<Union>dy1\<in>set offsets. \<Union>dx2\<in>set offsets. \<Union>dy2\<in>set offsets.
        {candidatePath s e dx1 dy1 dx2 dy2})"
  unfolding doubleBendCandidates_def by auto

lemma first_candidates:
  "path1 s e 0 20 \<in> set (singleBendCandidates s e)"
  "path2 s e 0 20 \<in> set (singleBendCandidates s e)"
  by (simp_all add: singleBendCandidates_def offsets_def)

lemma singleBendInner_preserves:
  assumes "\<And>c st. c \<in> innerCandidates s e dx dys \<Longrightarrow> I st \<Longrightarrow>
             I (keepIfBetter (checkAndCountObstructions obstacles c) c st)"
    and "I st"
  shows "I (singleBendInner obstacles True s e dx dys st)"
  using assms
proof (induction dys arbitrary: st)
  case Nil
  then show ?case by simp
next
  case (Cons dy dys)
  show ?case
  proof (cases "dx = 0 \<and> dy = 0")
    case True
    then show ?thesis using Cons by (auto simp: innerCandidates_Cons_skip)
  next
    case False
    let ?cnt = "checkAndCountObstructions obstacles"
    let ?st1 = "keepIfBetter (?cnt (path1 s e dx dy)) (path1 s e dx dy) st"
    let ?st2 = "keepIfBetter (?cnt (path2 s e dx dy)) (path2 s e dx dy) ?st1"
    have i1: "I ?st1" using False Cons.prems by (simp add: innerCandidates_Cons)
    have i2: "I ?st2" using False i1 Cons.prems(1) by (simp add: innerCandidates_Cons)
    have i3: "I (singleBendInner obstacles True s e dx dys ?st2)"
      using False i2 Cons.prems(1) by (intro Cons.IH) (simp_all add: innerCandidates_Cons)
    show ?thesis using False i1 i2 i3 by auto
  qed
qed

lemma singleBendSearch_preserves:
  assumes keep: "\<And>c st. c \<in> set (singleBendCandidates s e) \<Longrightarrow> I st \<Longrightarrow>
             I (keepIfBetter (checkAndCountObstructions obstacles c) c st)"
    and init: "I st"
  shows "I (singleBendSearch obstacles True s e st)"
  unfolding singleBendSearch_def
proof (rule forUntilClear_preserves [where I = I, OF _ init])
  fix d st' assume d: "d \<in> set offsets" and i: "I st'"
  show "I (singleBendInner obstacles True s e d offsets st')"
  proof (rule singleBendInner_preserves [where I = I, OF _ i])
    fix c st'' assume "c \<in> innerCandidates s e d offsets" and i': "I st''"
    then have "c \<in> set (singleBendCandidates s e)"
      using d unfolding singleBendCandidates_inner by blast
    then show "I (keepIfBetter (checkAndCountObstructions obstacles c) c st'')"
      using i' by (rule keep)
  qed
qed

lemma doubleBendSearch_preserves:
  assumes keep: "\<And>c st. c \<in> set (doubleBendCandidates s e) \<Longrightarrow> I st \<Longrightarrow>
             I (keepIfBetter (checkAndCountObstructions obstacles c) c st)"
    and init: "I st"
  shows "I (doubleBendSearch obstacles s e st)"
proof -
  have mem: "candidatePath s e dx1 dy1 dx2 dy2 \<in> set (doubleBendCandidates s e)"
    if "dx1 \<in> set offsets" "dy1 \<in> set offsets" "dx2 \<in> set offsets" "dy2 \<in> set offsets"
    for dx1 dy1 dx2 dy2
    unfolding doubleBendCandidates_set using that by blast
  show ?thesis
    unfolding doubleBendSearch_def
  proof (rule forUntilClear_preserves [where I = I, OF _ init])
    fix dx1 st1 assume dx1: "dx1 \<in> set offsets" and i1: "I st1"
    show "I (forUntilClear (\<lambda>dy1. forUntilClear (\<lambda>dx2. forUntilClear (\<lambda>dy2.
             keepIfBetter (checkAndCountObstructions obstacles (candidatePath s e dx1 dy1 dx2 dy2))
               (candidatePath s e dx1 dy1 dx2 dy2)) offsets) offsets) offsets st1)"
    proof (rule forUntilClear_preserves [where I = I, OF _ i1])
      fix dy1 st2 assume dy1: "dy1 \<in> set offsets" and i2: "I st2"
      show "I (forUntilClear (\<lambda>dx2. forUntilClear (\<lambda>dy2.
             keepIfBetter (checkAndCountObstructions obstacles (candidatePath s e dx1 dy1 dx2 dy2))
               (candidatePath s e dx1 dy1 dx2 dy2)) offsets) offsets st2)"
      proof (rule forUntilClear_preserves [where I = I, OF _ i2])
        fix dx2 st3 assume dx2: "dx2 \<in> set offsets" and i3: "I st3"
        show "I (forUntilClear (\<lambda>dy2.
             keepIfBetter (checkAndCountObstructions obstacles (candidatePath s e dx1 dy1 dx2 dy2))
               (candidatePath s e dx1 dy1 dx2 dy2)) offsets st3)"
        proof (rule forUntilClear_preserves [where I = I, OF _ i3])
          fix dy2 st4 assume dy2: "dy2 \<in> set offsets" and i4: "I st4"
          show "I (keepIfBetter (checkAndCountObstructions obstacles (candidatePath s e dx1 dy1 dx2 dy2))
               (candidatePath s e dx1 dy1 dx2 dy2) st4)"
            using mem [OF dx1 dy1 dx2 dy2] i4 by (rule keep)
        qed
      qed
    qed
  qed
qed

lemma singleBendInner_improves:
  "improves (checkAndCountObstructions obstacles) (innerCandidates s e dx dys) st
     (singleBendInner obstacles True s e dx dys st)"
proof (induction dys arbitrary: st)
  case Nil
  then show ?case by (simp add: innerCandidates_def improves_def)
next
  case (Cons dy dys)
  let ?cnt = "checkAndCountObstructions obstacles"
  show ?case
  proof (cases "dx = 0 \<and> dy = 0")
    case True
    then show ?thesis using Cons.IH [of st] by (simp add: innerCandidates_Cons_skip)
  next
    case skip: False
    let ?st1 = "keepIfBetter (?cnt (path1 s e dx dy)) (path1 s e dx dy) st"
    let ?st2 = "keepIfBetter (?cnt (path2 s e dx dy)) (path2 s e dx dy) ?st1"
    have k1: "improves ?cnt {path1 s e dx dy} st ?st1" by (rule improves_keep)
    have k2: "improves ?cnt {path2 s e dx dy} ?st1 ?st2" by (rule improves_keep)
    have k12: "improves ?cnt ({path1 s e dx dy} \<union> {path2 s e dx dy}) st ?st2"
      by (rule improves_trans [OF k1 k2])
    show ?thesis
    proof (cases "?cnt (path1 s e dx dy) = 0")
      case True
      have "improves ?cnt (innerCandidates s e dx (dy # dys)) st ?st1"
        using True by (rule improves_keep_clear [of ?cnt "path1 s e dx dy"])
      then show ?thesis using skip True by auto
    next
      case c1: False
      show ?thesis
      proof (cases "?cnt (path2 s e dx dy) = 0")
        case True
        have "improves ?cnt {} ?st1 ?st2"
          using True by (rule improves_keep_clear [of ?cnt "path2 s e dx dy"])
        from improves_trans [OF k1 this]
        have "improves ?cnt {path1 s e dx dy} st ?st2" by simp
        moreover have "minObstructions ?st2 = 0"
          using True by (auto simp: keepIfBetter_def zero_enat_def [symmetric])
        ultimately have "improves ?cnt (innerCandidates s e dx (dy # dys)) st ?st2"
          by (rule improves_stop)
        then show ?thesis using skip c1 True by auto
      next
        case c2: False
        have "improves ?cnt (({path1 s e dx dy} \<union> {path2 s e dx dy}) \<union> innerCandidates s e dx dys)
                st (singleBendInner obstacles True s e dx dys ?st2)"
          by (rule improves_trans [OF k12 Cons.IH])
        then show ?thesis using skip c1 c2 by (auto simp: innerCandidates_Cons)
      qed
    qed
  qed
qed

lemma singleBendSearch_improves:
  "improves (checkAndCountObstructions obstacles) (set (singleBendCandidates s e)) st
     (singleBendSearch obstacles True s e st)"
  unfolding singleBendSearch_def singleBendCandidates_inner
  by (rule forUntilClear_improves) (rule singleBendInner_improves)

lemma doubleBendSearch_improves:
  "improves (checkAndCountObstructions obstacles) (set (doubleBendCandidates s e)) st
     (doubleBendSearch obstacles s e st)"
  unfolding doubleBendSearch_def doubleBendCandidates_set
  by (intro forUntilClear_improves improves_keep)

lemma bendSearch_inv:
  "searchInv (set (singleBendCandidates s e) \<union> set (doubleBendCandidates s e))
     (checkAndCountObstructions obstacles) (bendSearch obstacles True s e)"
proof -
  let ?cnt = "checkAndCountObstructions obstacles"
  let ?C = "set (singleBendCandidates s e) \<union> set (doubleBendCandidates s e)"
  let ?st1 = "singleBendSearch obstacles True s e initialSearch"
  have inv1: "searchInv ?C ?cnt ?st1"
    by (rule singleBendSearch_preserves [where I = "searchInv ?C ?cnt"])
       (simp_all add: searchInv_keep searchInv_initial)
  have inv2: "searchInv ?C ?cnt (doubleBendSearch obstacles s e ?st1)"
    by (rule doubleBendSearch_preserves [where I = "searchInv ?C ?cnt"])
       (simp_all add: searchInv_keep inv1)
  show ?thesis
  proof (cases "minObstructions ?st1 > 0")
    case True
    show ?thesis unfolding bendSearch_def Let_def using True inv2 by (simp only: if_True)
  next
    case False
    show ?thesis unfolding bendSearch_def Let_def using False inv1 by (simp only: if_False)
  qed
qed

lemma bendSearch_improves:
  "improves (checkAndCountObstructions obstacles)
     (set (singleBendCandidates s e) \<union> set (doubleBendCandidates s e))
     initialSearch (bendSearch obstacles True s e)"
proof -
  let ?cnt = "checkAndCountObstructions obstacles"
  let ?S = "set (singleBendCandidates s e)"
  let ?D = "set (doubleBendCandidates s e)"
  let ?st1 = "singleBendSearch obstacles True s e initialSearch"
  have imp1: "improves ?cnt ?S initialSearch ?st1" by (rule singleBendSearch_improves)
  show ?thesis
  proof (cases "minObstructions ?st1 > 0")
    case True
    have "improves ?cnt (?S \<union> ?D) initialSearch (doubleBendSearch obstacles s e ?st1)"
      by (rule improves_trans [OF imp1 doubleBendSearch_improves])
    then show ?thesis unfolding bendSearch_def Let_def using True by (simp only: if_True)
  next
    case False
    then have z: "minObstructions ?st1 = 0" by simp
    have "improves ?cnt (?S \<union> ?D) initialSearch ?st1" by (rule improves_stop [OF imp1 z])
    then show ?thesis unfolding bendSearch_def Let_def using False by (simp only: if_False)
  qed
qed

lemma singleBendSearch_assigns:
  "\<exists>p. bestPath (singleBendSearch obstacles True s e initialSearch) = Some p \<and>
       p \<in> set (singleBendCandidates s e) \<and>
       minObstructions (singleBendSearch obstacles True s e initialSearch) =
         enat (checkAndCountObstructions obstacles p)"
proof (rule searchInv_Some)
  show "searchInv (set (singleBendCandidates s e)) (checkAndCountObstructions obstacles)
          (singleBendSearch obstacles True s e initialSearch)"
    by (rule singleBendSearch_preserves
          [where I = "searchInv (set (singleBendCandidates s e)) (checkAndCountObstructions obstacles)"])
       (simp_all add: searchInv_keep searchInv_initial)
  show "minObstructions (singleBendSearch obstacles True s e initialSearch) \<noteq> \<infinity>"
    by (rule improves_finite [OF singleBendSearch_improves first_candidates(1)])
qed

lemma bendSearch_best:
  "\<exists>p. bestPath (bendSearch obstacles True s e) = Some p \<and>
       p \<in> set (singleBendCandidates s e) \<union> set (doubleBendCandidates s e) \<and>
       (\<forall>c \<in> set (singleBendCandidates s e) \<union> set (doubleBendCandidates s e).
          checkAndCountObstructions obstacles p \<le> checkAndCountObstructions obstacles c)"
proof -
  let ?cnt = "checkAndCountObstructions obstacles"
  let ?C = "set (singleBendCandidates s e) \<union> set (doubleBendCandidates s e)"
  let ?st2 = "bendSearch obstacles True s e"
  have imp2: "improves ?cnt ?C initialSearch ?st2" by (rule bendSearch_improves)
  have fin: "minObstructions ?st2 \<noteq> \<infinity>"
    by (rule improves_finite [OF imp2, of "path1 s e 0 20"]) (simp add: first_candidates)
  from searchInv_Some [OF bendSearch_inv fin] obtain p where
    p: "bestPath ?st2 = Some p" "p \<in> ?C" "minObstructions ?st2 = enat (?cnt p)"
    by blast
  have "?cnt p \<le> ?cnt c" if "c \<in> ?C" for c
  proof -
    from imp2 that have "minObstructions ?st2 = 0 \<or> minObstructions ?st2 \<le> enat (?cnt c)"
      unfolding improves_def by blast
    then show ?thesis unfolding p(3) by (auto simp: zero_enat_def)
  qed
  with p(1,2) show ?thesis by blast
qed

text \<open>
  When no candidate has a smaller count than the first one evaluated, and that count is
  not 0, every later comparison \<open>obsCount < minObstructions\<close> fails and the first
  candidate is returned.
\<close>

lemma bendSearch_first_wins:
  assumes pos: "0 < checkAndCountObstructions obstacles (path1 s e 0 20)"
    and least: "\<And>c. c \<in> set (singleBendCandidates s e) \<union> set (doubleBendCandidates s e) \<Longrightarrow>
        checkAndCountObstructions obstacles (path1 s e 0 20) \<le> checkAndCountObstructions obstacles c"
  shows "bestPath (bendSearch obstacles True s e) = Some (path1 s e 0 20)"
proof -
  let ?cnt = "checkAndCountObstructions obstacles"
  let ?f = "path1 s e 0 20"
  let ?st0 = "\<lparr>bestPath = Some ?f, minObstructions = enat (?cnt ?f)\<rparr>"
  let ?rest = "[-20, 40, -40, 60, -60] :: real list"
  have stay: "keepIfBetter (?cnt c) c ?st0 = ?st0"
    if "c \<in> set (singleBendCandidates s e) \<union> set (doubleBendCandidates s e)" for c
    using least [OF that] by (simp add: keepIfBetter_unchanged)
  have c2: "?cnt (path2 s e 0 20) \<noteq> 0"
    using least [of "path2 s e 0 20"] first_candidates(2) [of s e] pos by simp
  have first: "keepIfBetter (?cnt ?f) ?f initialSearch = ?st0"
    by (simp add: keepIfBetter_def initialSearch_def)
  have inner_rest: "singleBendInner obstacles True s e 0 ?rest ?st0 = ?st0"
  proof (rule singleBendInner_preserves [where I = "\<lambda>st. st = ?st0"])
    fix c st assume "c \<in> innerCandidates s e 0 ?rest" and "st = ?st0"
    moreover have "innerCandidates s e 0 ?rest \<subseteq> set (singleBendCandidates s e)"
      unfolding singleBendCandidates_inner by (auto simp: innerCandidates_def offsets_def)
    ultimately show "keepIfBetter (?cnt c) c st = ?st0" using stay by blast
  qed simp
  have inner0: "singleBendInner obstacles True s e 0 offsets initialSearch = ?st0"
  proof -
    have offs: "offsets = 0 # 20 # ?rest" by (simp add: offsets_def)
    have step: "singleBendInner obstacles True s e 0 (0 # 20 # r) initialSearch =
        singleBendInner obstacles True s e 0 r ?st0" for r
      using pos c2 first stay [of "path2 s e 0 20"] first_candidates(2) [of s e] by simp
    show ?thesis by (simp only: offs step inner_rest)
  qed
  have nz: "minObstructions ?st0 \<noteq> 0" using pos by (simp add: zero_enat_def)
  have outer_rest:
    "forUntilClear (\<lambda>dx. singleBendInner obstacles True s e dx offsets) (tl offsets) ?st0 = ?st0"
  proof (rule forUntilClear_preserves [where I = "\<lambda>st. st = ?st0"])
    fix d st assume "d \<in> set (tl offsets)" and st: "st = ?st0"
    then have d: "d \<in> set offsets" by (auto simp: offsets_def)
    show "singleBendInner obstacles True s e d offsets st = ?st0"
    proof (rule singleBendInner_preserves [where I = "\<lambda>st. st = ?st0"])
      fix c st' assume "c \<in> innerCandidates s e d offsets" and "st' = ?st0"
      moreover have "innerCandidates s e d offsets \<subseteq> set (singleBendCandidates s e)"
        unfolding singleBendCandidates_inner using d by blast
      ultimately show "keepIfBetter (?cnt c) c st' = ?st0" using stay by blast
    qed (rule st)
  qed simp
  have single: "singleBendSearch obstacles True s e initialSearch = ?st0"
  proof -
    have "offsets = 0 # tl offsets" by (simp add: offsets_def)
    then have "singleBendSearch obstacles True s e initialSearch =
        forUntilClear (\<lambda>dx. singleBendInner obstacles True s e dx offsets) (0 # tl offsets) initialSearch"
      unfolding singleBendSearch_def by simp
    also have "\<dots> = ?st0" using inner0 nz outer_rest by simp
    finally show ?thesis .
  qed
  have double: "doubleBendSearch obstacles s e ?st0 = ?st0"
  proof (rule doubleBendSearch_preserves [where I = "\<lambda>st. st = ?st0"])
    fix c st assume "c \<in> set (doubleBendCandidates s e)" and "st = ?st0"
    then show "keepIfBetter (?cnt c) c st = ?st0" using stay by blast
  qed simp
  have "bendSearch obstacles True s e = ?st0"
    unfolding bendSearch_def Let_def single using double by simp
  then show ?thesis by simp
qed

lemma point_eta: "\<lparr>px = px p, py = py p\<rparr> = (p::point)"
  by (cases p) simp

lemma candidate_shape:
  assumes "p \<in> set (singleBendCandidates s e) \<union> set (doubleBendCandidates s e)"
  shows "p \<noteq> [] \<and> hd p = s \<and> last p = e \<and> (length p = 3 \<or> length p = 4)"
  using assms unfolding singleBendCandidates_inner doubleBendCandidates_set innerCandidates_def
  by (auto simp: path1_def path2_def candidatePath_def point_eta)

lemma routeBetween_clear:
  "\<not> pathIsObstructed obstacles s e \<Longrightarrow> routeBetween edge obstacles s e = Some [s, e]"
  by (simp add: routeBetween_def potentialPath_def point_eta)

lemma routeBetween_obstructed:
  assumes "pathIsObstructed obstacles s e"
  shows "routeBetween edge obstacles s e = bestPath (bendSearch obstacles True s e) \<and>
         bestPath (bendSearch obstacles True s e) \<noteq> None"
proof -
  from bendSearch_best [of obstacles s e] obtain p where
    "bestPath (bendSearch obstacles True s e) = Some p" by blast
  then show ?thesis using assms by (simp add: routeBetween_def)
qed

lemma pathIsObstructed_direct:
  "pathIsObstructed obstacles s e =
     list_ex (\<lambda>n. isLineIntersectingRect s e (getBBox n)) obstacles"
  by (simp add: pathIsObstructed_def potentialPath_def point_eta list_ex_iff)

lemma endpoint_inside:
  assumes "pointInRect p1 r \<or> pointInRect p2 r"
  shows "isLineIntersectingRect p1 p2 r"
proof (cases "px p1 = px p2 \<and> py p1 = py p2")
  case True
  then have "p1 = p2" by (cases p1, cases p2) simp
  with assms show ?thesis by (auto simp: isLineIntersectingRect_def pointInRect_def)
next
  case False
  with assms show ?thesis by (auto simp: isLineIntersectingRect_def pointInRect_def)
qed

lemma starts_inside:
  "pointInRect s (getBBox n) \<Longrightarrow> isPathIntersectingNode (s # q # ps) n"
  by (simp add: endpoint_inside)

lemma calculatePath_resolved:
  "resolveStart edge sourceNode = Some s \<Longrightarrow> resolveEnd edge targetNode = Some e \<Longrightarrow>
     calculatePath edge sourceNode targetNode allNodes =
       routeBetween edge (obstaclesOf sourceNode targetNode allNodes) s e"
  by (simp add: calculatePath_def)

lemma candidate_starts:
  assumes "c \<in> set (singleBendCandidates s e) \<union> set (doubleBendCandidates s e)"
  shows "\<exists>q ps. c = s # q # ps"
  using assms unfolding singleBendCandidates_inner doubleBendCandidates_set innerCandidates_def
  by (auto simp: path1_def path2_def candidatePath_def point_eta)

lemma start_covered_count:
  assumes "n \<in> set obstacles" and "pointInRect s (getBBox n)"
    and "c \<in> set (singleBendCandidates s e) \<union> set (doubleBendCandidates s e)"
  shows "1 \<le> checkAndCountObstructions obstacles c"
proof -
  from candidate_starts [OF assms(3)] obtain q ps where c: "c = s # q # ps" by blast
  have "isPathIntersectingNode c n" unfolding c using assms(2) by (rule starts_inside)
  with assms(1) have "filter (isPathIntersectingNode c) obstacles \<noteq> []"
    by (auto simp: filter_empty_conv)
  then show ?thesis
    unfolding checkAndCountObstructions_filter by (simp add: Suc_le_eq)
qed

lemma hit_le_sum:
  "(if list_ex P segs then 1 else 0) \<le> sum_list (map (\<lambda>seg. if P seg then 1 else (0::nat)) segs)"
  by (induction segs) auto

lemma pathObstructionCount_Cons:
  "pathObstructionCount p (r # rs) =
     sum_list (map (\<lambda>seg. if isLineIntersectingRect (fst seg) (snd seg) r then 1 else 0)
       (zip p (tl p))) + pathObstructionCount p rs"
  unfolding pathObstructionCount_def by (simp add: sum_list_addf)

lemma count_le_pathObstructionCount:
  "length (filter (isPathIntersectingNode p) obstacles) \<le> pathObstructionCount p (map getBBox obstacles)"
proof (induction obstacles)
  case Nil
  then show ?case by simp
next
  case (Cons n ns)
  have "(if isPathIntersectingNode p n then 1 else 0) \<le>
      sum_list (map (\<lambda>seg. if isLineIntersectingRect (fst seg) (snd seg) (getBBox n) then 1 else (0::nat))
        (zip p (tl p)))"
    unfolding isPathIntersectingNode_pairs by (rule hit_le_sum)
  with Cons.IH show ?case by (auto simp: pathObstructionCount_Cons split: if_splits)
qed

lemma exBlock_search:
  "bestPath (bendSearch [exBlock] True \<lparr>px = 0, py = 0\<rparr> \<lparr>px = 200, py = 0\<rparr>) =
     Some [\<lparr>px = 0, py = 0\<rparr>, \<lparr>px = 100, py = 40\<rparr>, \<lparr>px = 200, py = 0\<rparr>]"
  by (simp add: bendSearch_def singleBendSearch_def offsets_def path1_def path2_def
        checkAndCountObstructions_def exBlock_def isLineIntersectingRect_def segments_def
        doLineSegmentsIntersect_def orientation_def onSegment_def
        keepIfBetter_def initialSearch_def zero_enat_def)

lemma count_le_length: "checkAndCountObstructions obstacles p \<le> length obstacles"
  unfolding checkAndCountObstructions_filter by (rule length_filter_le)

text \<open>
  With a single obstacle that contains the start point every candidate has count 1, so
  the search keeps the first candidate it evaluates.
\<close>

lemma single_cover_first_wins:
  assumes "pointInRect s (getBBox n)"
  shows "bestPath (bendSearch [n] True s e) = Some (path1 s e 0 20)"
proof (rule bendSearch_first_wins)
  have "1 \<le> checkAndCountObstructions [n] (path1 s e 0 20)"
    by (rule start_covered_count [of n _ s _ e]) (simp_all add: assms first_candidates)
  then show "0 < checkAndCountObstructions [n] (path1 s e 0 20)" by simp
next
  fix c assume "c \<in> set (singleBendCandidates s e) \<union> set (doubleBendCandidates s e)"
  then have "1 \<le> checkAndCountObstructions [n] c"
    by (intro start_covered_count [of n _ s _ e]) (simp_all add: assms)
  moreover have "checkAndCountObstructions [n] (path1 s e 0 20) \<le> 1"
    using count_le_length [of "[n]" "path1 s e 0 20"] by simp
  ultimately show "checkAndCountObstructions [n] (path1 s e 0 20) \<le> checkAndCountObstructions [n] c"
    by simp
qed

lemma single_cover_route:
  assumes "pointInRect s (getBBox n)"
  shows "routeBetween edge [n] s e = Some (path1 s e 0 20)"
proof -
  have "isLineIntersectingRect s e (getBBox n)" using assms by (simp add: endpoint_inside)
  then have "pathIsObstructed [n] s e" by (simp add: pathIsObstructed_direct)
  from routeBetween_obstructed [OF this, of edge] single_cover_first_wins [OF assms, of e]
  show ?thesis by simp
qed

lemma point_eq_iff: "(p = q) = (px p = px q \<and> py p = py q)" for p q :: point
  by (cases p, cases q) simp

lemma remdups_adj_head: "remdups_adj (x # xs) = x # tl (remdups_adj (x # xs))"
  by (simp add: remdups_adj_Cons')

lemma filter_from:
  "pre \<noteq> [] \<Longrightarrow>
     map snd (filter (keepsPoint (pre @ xs)) (List.enumerate (length pre) xs)) =
       tl (remdups_adj (last pre # xs))"
proof (induction xs arbitrary: pre)
  case Nil
  then show ?case by simp
next
  case (Cons x xs)
  have rest: "map snd (filter (keepsPoint (pre @ x # xs)) (List.enumerate (Suc (length pre)) xs)) =
      tl (remdups_adj (x # xs))"
    using Cons.IH [of "pre @ [x]"] by simp
  have prev: "(pre @ x # xs) ! (length pre - Suc 0) = last pre"
    using Cons.prems by (simp add: nth_append last_conv_nth)
  have keep: "keepsPoint (pre @ x # xs) (length pre, x) = (x \<noteq> last pre)"
    using Cons.prems by (simp add: keepsPoint_def prev point_eq_iff [of x])
  show ?case
  proof (cases "x = last pre")
    case True
    then show ?thesis using keep rest by simp
  next
    case False
    then have "tl (remdups_adj (last pre # x # xs)) = x # tl (remdups_adj (x # xs))"
      using remdups_adj_head [of x xs] by auto
    then show ?thesis using False keep rest by simp
  qed
qed

text \<open>The sibling's filter removes every point equal to its predecessor.\<close>

lemma filterConsecutiveDuplicates_remdups_adj: "filterConsecutiveDuplicates ps = remdups_adj ps"
proof (cases ps)
  case Nil
  then show ?thesis by (simp add: filterConsecutiveDuplicates_def)
next
  case (Cons x xs)
  have "map snd (filter (keepsPoint ([x] @ xs)) (List.enumerate (length [x]) xs)) =
      tl (remdups_adj (last [x] # xs))"
    by (rule filter_from) simp
  then have "filterConsecutiveDuplicates (x # xs) = x # tl (remdups_adj (x # xs))"
    by (simp add: filterConsecutiveDuplicates_def keepsPoint_def)
  then show ?thesis unfolding Cons using remdups_adj_head [of x xs] by simp
qed

lemma filterConsecutiveDuplicates_distinct_adj: "distinct_adj (filterConsecutiveDuplicates ps)"
  by (simp add: filterConsecutiveDuplicates_remdups_adj)

lemma two_hits:
  assumes "n1 \<in> set obstacles" "n2 \<in> set obstacles" "n1 \<noteq> n2"
    and "pointInRect s (getBBox n1)" "pointInRect q (getBBox n2)"
  shows "2 \<le> checkAndCountObstructions obstacles (s # q # ps)"
proof -
  let ?hits = "filter (isPathIntersectingNode (s # q # ps)) obstacles"
  have "isPathIntersectingNode (s # q # ps) n1" using assms(4) by (rule starts_inside)
  moreover have "isPathIntersectingNode (s # q # ps) n2" using assms(5) by (simp add: endpoint_inside)
  ultimately have "{n1, n2} \<subseteq> set ?hits" using assms(1,2) by simp
  then have "card {n1, n2} \<le> card (set ?hits)" by (intro card_mono) simp_all
  also have "\<dots> \<le> length ?hits" by (rule card_length)
  finally show ?thesis using assms(3) by (simp add: checkAndCountObstructions_filter)
qed

text \<open>The six nodes of \<open>exRing\<close>: the bend of every candidate lies in one of them.\<close>


lemma offsets_range:
  "d \<in> set offsets \<Longrightarrow> (d = 0 \<or> 20 \<le> d \<or> d \<le> -20) \<and> -60 \<le> d \<and> d \<le> 60"
  by (auto simp: offsets_def)

lemma exRing_boxes:
  "pointInRect q (getBBox exRight) = (15 \<le> px q \<and> px q \<le> 100 \<and> -100 \<le> py q \<and> py q \<le> 100)"
  "pointInRect q (getBBox exLeft) = (-100 \<le> px q \<and> px q \<le> -5 \<and> -100 \<le> py q \<and> py q \<le> 100)"
  "pointInRect q (getBBox exTop) = (-100 \<le> px q \<and> px q \<le> 100 \<and> 15 \<le> py q \<and> py q \<le> 100)"
  "pointInRect q (getBBox exBottom) = (-100 \<le> px q \<and> px q \<le> 100 \<and> -100 \<le> py q \<and> py q \<le> -5)"
  "pointInRect q (getBBox exPost) = (px q = 0 \<and> py q = 5)"
  by (auto simp: pointInRect_def exRight_def exLeft_def exTop_def exBottom_def exPost_def)

lemma exRing_members:
  "exRight \<in> set exRing \<and> exRight \<noteq> exPin"
  "exLeft \<in> set exRing \<and> exLeft \<noteq> exPin"
  "exTop \<in> set exRing \<and> exTop \<noteq> exPin"
  "exBottom \<in> set exRing \<and> exBottom \<noteq> exPin"
  "exPost \<in> set exRing \<and> exPost \<noteq> exPin"
  by (simp_all add: exRing_def exPin_def exRight_def exLeft_def exTop_def exBottom_def exPost_def)

lemma exRing_covers:
  assumes "(15 \<le> px q \<or> px q \<le> -5 \<or> 15 \<le> py q \<or> py q \<le> -5 \<or> (px q = 0 \<and> py q = 5))"
    and "-100 \<le> px q" "px q \<le> 100" "-100 \<le> py q" "py q \<le> 100"
  shows "\<exists>n \<in> set exRing. n \<noteq> exPin \<and> pointInRect q (getBBox n)"
proof -
  from assms(1) consider "15 \<le> px q" | "px q \<le> -5" | "15 \<le> py q" | "py q \<le> -5"
    | "px q = 0 \<and> py q = 5" by blast
  then show ?thesis
  proof cases
    case 1
    then have "pointInRect q (getBBox exRight)" using assms(2-5) by (simp add: exRing_boxes)
    then show ?thesis using exRing_members(1) by blast
  next
    case 2
    then have "pointInRect q (getBBox exLeft)" using assms(2-5) by (simp add: exRing_boxes)
    then show ?thesis using exRing_members(2) by blast
  next
    case 3
    then have "pointInRect q (getBBox exTop)" using assms(2-5) by (simp add: exRing_boxes)
    then show ?thesis using exRing_members(3) by blast
  next
    case 4
    then have "pointInRect q (getBBox exBottom)" using assms(2-5) by (simp add: exRing_boxes)
    then show ?thesis using exRing_members(4) by blast
  next
    case 5
    then have "pointInRect q (getBBox exPost)" by (simp add: exRing_boxes)
    then show ?thesis using exRing_members(5) by blast
  qed
qed

lemma exRing_bend_covered:
  assumes "dx \<in> set offsets" and "dy \<in> set offsets"
  shows "\<not> (dx = 0 \<and> dy = 0) \<Longrightarrow>
           \<exists>n \<in> set exRing. n \<noteq> exPin \<and> pointInRect \<lparr>px = 5 + dx, py = dy\<rparr> (getBBox n)"
    and "\<not> (dx = 0 \<and> dy = 0) \<Longrightarrow>
           \<exists>n \<in> set exRing. n \<noteq> exPin \<and> pointInRect \<lparr>px = 5 + dx, py = 10 + dy\<rparr> (getBBox n)"
    and "\<exists>n \<in> set exRing. n \<noteq> exPin \<and> pointInRect \<lparr>px = dx, py = 5 + dy\<rparr> (getBBox n)"
proof -
  note rx = offsets_range [OF assms(1)] and ry = offsets_range [OF assms(2)]
  have bounds: "-100 \<le> 5 + dx" "5 + dx \<le> 100" "-100 \<le> dy" "dy \<le> 100"
    "-100 \<le> 10 + dy" "10 + dy \<le> 100" "-100 \<le> dx" "dx \<le> 100"
    "-100 \<le> 5 + dy" "5 + dy \<le> 100"
    using rx ry by simp_all
  show "\<exists>n \<in> set exRing. n \<noteq> exPin \<and> pointInRect \<lparr>px = 5 + dx, py = dy\<rparr> (getBBox n)"
    if "\<not> (dx = 0 \<and> dy = 0)"
  proof -
    have "15 \<le> 5 + dx \<or> 5 + dx \<le> -5 \<or> 15 \<le> dy \<or> dy \<le> -5" using rx ry that by linarith
    then show ?thesis by (intro exRing_covers) (auto simp: bounds)
  qed
  show "\<exists>n \<in> set exRing. n \<noteq> exPin \<and> pointInRect \<lparr>px = 5 + dx, py = 10 + dy\<rparr> (getBBox n)"
    if "\<not> (dx = 0 \<and> dy = 0)"
  proof -
    have "15 \<le> 5 + dx \<or> 5 + dx \<le> -5 \<or> 15 \<le> 10 + dy \<or> 10 + dy \<le> -5"
      using rx ry that by linarith
    then show ?thesis by (intro exRing_covers) (auto simp: bounds)
  qed
  show "\<exists>n \<in> set exRing. n \<noteq> exPin \<and> pointInRect \<lparr>px = dx, py = 5 + dy\<rparr> (getBBox n)"
  proof -
    have "15 \<le> dx \<or> dx \<le> -5 \<or> 15 \<le> 5 + dy \<or> 5 + dy \<le> -5 \<or> (dx = 0 \<and> 5 + dy = 5)"
      using rx ry by linarith
    then show ?thesis by (intro exRing_covers) (auto simp: bounds)
  qed
qed

lemma exRing_two_hits:
  assumes "c \<in> set (singleBendCandidates \<lparr>px = 0, py = 0\<rparr> \<lparr>px = 10, py = 10\<rparr>) \<union>
               set (doubleBendCandidates \<lparr>px = 0, py = 0\<rparr> \<lparr>px = 10, py = 10\<rparr>)"
  shows "2 \<le> checkAndCountObstructions exRing c"
proof -
  have pin: "exPin \<in> set exRing" "pointInRect \<lparr>px = 0, py = 0\<rparr> (getBBox exPin)"
    by (simp_all add: exRing_def pointInRect_def exPin_def)
  have hit: "2 \<le> checkAndCountObstructions exRing (\<lparr>px = 0, py = 0\<rparr> # q # ps)"
    if "\<exists>n \<in> set exRing. n \<noteq> exPin \<and> pointInRect q (getBBox n)" for q ps
  proof -
    from that obtain n where "n \<in> set exRing" "n \<noteq> exPin" "pointInRect q (getBBox n)" by blast
    then show ?thesis using pin by (intro two_hits [of exPin _ n]) auto
  qed
  from assms consider
    (one) dx dy where "dx \<in> set offsets" "dy \<in> set offsets" "\<not> (dx = 0 \<and> dy = 0)"
      "c = path1 \<lparr>px = 0, py = 0\<rparr> \<lparr>px = 10, py = 10\<rparr> dx dy"
  | (two) dx dy where "dx \<in> set offsets" "dy \<in> set offsets" "\<not> (dx = 0 \<and> dy = 0)"
      "c = path2 \<lparr>px = 0, py = 0\<rparr> \<lparr>px = 10, py = 10\<rparr> dx dy"
  | (double) dx1 dy1 dx2 dy2 where "dx1 \<in> set offsets" "dy1 \<in> set offsets"
      "c = candidatePath \<lparr>px = 0, py = 0\<rparr> \<lparr>px = 10, py = 10\<rparr> dx1 dy1 dx2 dy2"
    unfolding singleBendCandidates_inner doubleBendCandidates_set innerCandidates_def by blast
  then show ?thesis
  proof cases
    case one
    show ?thesis
      unfolding one(4) path1_def using exRing_bend_covered(1) [OF one(1,2,3)]
      by (simp add: hit)
  next
    case two
    show ?thesis
      unfolding two(4) path2_def using exRing_bend_covered(2) [OF two(1,2,3)]
      by (simp add: hit)
  next
    case double
    show ?thesis
      unfolding double(3) candidatePath_def using exRing_bend_covered(3) [OF double(1,2)]
      by (simp add: hit)
  qed
qed


lemma exRing_counts:
  "checkAndCountObstructions exRing
     [\<lparr>px = 0, py = 0\<rparr>, \<lparr>px = 5, py = 20\<rparr>, \<lparr>px = 10, py = 10\<rparr>] = 2"
  "checkAndCountObstructions exRing [\<lparr>px = 0, py = 0\<rparr>, \<lparr>px = 10, py = 10\<rparr>] = 1"
  by (simp_all add: checkAndCountObstructions_def exRing_def isLineIntersectingRect_def
        segments_def doLineSegmentsIntersect_def orientation_def onSegment_def
        exPin_def exRight_def exLeft_def exTop_def exBottom_def exPost_def)

section \<open>Properties of the geometry\<close>

text \<open>
  C7: rectangle membership is boundary-inclusive: if an end point of the segment
  satisfies \<open>minX \<le> x \<le> maxX\<close> and \<open>minY \<le> y \<le> maxY\<close>, equality included, the
  segment-rectangle test returns true.
\<close>

theorem isLineIntersectingRect_endpoint_inclusive:
  "pointInRect p1 r \<or> pointInRect p2 r \<Longrightarrow> isLineIntersectingRect p1 p2 r"
  by (rule endpoint_inside)

theorem isLineIntersectingRect_endpoint_inclusive_witness:
  "pointInRect \<lparr>px = 80, py = 20\<rparr> (getBBox exBlock) \<and>
   isLineIntersectingRect \<lparr>px = 80, py = 20\<rparr> \<lparr>px = 0, py = 100\<rparr> (getBBox exBlock) \<and>
   isLineIntersectingRect \<lparr>px = 0, py = 100\<rparr> \<lparr>px = 80, py = 20\<rparr> (getBBox exBlock)"
proof -
  have inside: "pointInRect \<lparr>px = 80, py = 20\<rparr> (getBBox exBlock)"
    by (simp add: pointInRect_def exBlock_def)
  show ?thesis
    using inside
      isLineIntersectingRect_endpoint_inclusive
        [of "\<lparr>px = 80, py = 20\<rparr>" "getBBox exBlock" "\<lparr>px = 0, py = 100\<rparr>"]
      isLineIntersectingRect_endpoint_inclusive
        [of "\<lparr>px = 0, py = 100\<rparr>" "getBBox exBlock" "\<lparr>px = 80, py = 20\<rparr>"]
    by simp
qed

text \<open>
  C10: the segment-segment intersection test is symmetric in its two segments:
  \<open>doLineSegmentsIntersect p1 p2 p3 p4 = doLineSegmentsIntersect p3 p4 p1 p2\<close>
  for all points.
\<close>

theorem doLineSegmentsIntersect_symmetric:
  "doLineSegmentsIntersect p1 p2 p3 p4 = doLineSegmentsIntersect p3 p4 p1 p2"
  unfolding doLineSegmentsIntersect_def Let_def by auto

section \<open>Properties of \<open>calculatePath\<close>\<close>

text \<open>
  C1: whenever the start and the end point are defined, the path that \<open>calculatePath\<close>
  returns begins with the start point and ends with the end point.
\<close>

theorem calculatePath_anchors:
  assumes "resolveStart edge sourceNode = Some s" and "resolveEnd edge targetNode = Some e"
  shows "\<exists>p. calculatePath edge sourceNode targetNode allNodes = Some p \<and>
             p \<noteq> [] \<and> hd p = s \<and> last p = e"
proof (cases "pathIsObstructed (obstaclesOf sourceNode targetNode allNodes) s e")
  case False
  then show ?thesis
    using assms by (simp add: calculatePath_resolved routeBetween_clear)
next
  case True
  let ?obs = "obstaclesOf sourceNode targetNode allNodes"
  from bendSearch_best [of ?obs s e] obtain p where
    p: "bestPath (bendSearch ?obs True s e) = Some p"
       "p \<in> set (singleBendCandidates s e) \<union> set (doubleBendCandidates s e)"
    by blast
  have "calculatePath edge sourceNode targetNode allNodes = Some p"
    using assms routeBetween_obstructed [OF True, of edge] p(1)
    by (simp add: calculatePath_resolved)
  with candidate_shape [OF p(2)] show ?thesis by simp
qed

theorem calculatePath_anchors_witness:
  "resolveStart exEdge exSource = Some \<lparr>px = 0, py = 0\<rparr> \<and>
   resolveEnd exEdge exTarget = Some \<lparr>px = 200, py = 0\<rparr> \<and>
   (\<exists>p. calculatePath exEdge exSource exTarget [exSource, exBlock, exTarget] = Some p \<and>
        p \<noteq> [] \<and> hd p = \<lparr>px = 0, py = 0\<rparr> \<and> last p = \<lparr>px = 200, py = 0\<rparr>)"
proof -
  have s: "resolveStart exEdge exSource = Some \<lparr>px = 0, py = 0\<rparr>"
    by (simp add: resolveStart_def exEdge_def)
  have e: "resolveEnd exEdge exTarget = Some \<lparr>px = 200, py = 0\<rparr>"
    by (simp add: resolveEnd_def exEdge_def)
  show ?thesis
    using s e calculatePath_anchors [OF s e, of "[exSource, exBlock, exTarget]"] by simp
qed

text \<open>
  C5: if no obstacle's rectangle intersects the segment from the start to the end point,
  in particular if there is no obstacle at all, \<open>calculatePath\<close> returns exactly the
  two-point direct path.
\<close>

theorem calculatePath_clear_direct:
  assumes "resolveStart edge sourceNode = Some s" and "resolveEnd edge targetNode = Some e"
    and "\<forall>n \<in> set (obstaclesOf sourceNode targetNode allNodes).
           \<not> isLineIntersectingRect s e (getBBox n)"
  shows "calculatePath edge sourceNode targetNode allNodes = Some [s, e]"
proof -
  have "\<not> pathIsObstructed (obstaclesOf sourceNode targetNode allNodes) s e"
    using assms(3) by (simp add: pathIsObstructed_direct list_ex_iff)
  then show ?thesis
    using assms(1,2) by (simp add: calculatePath_resolved routeBetween_clear)
qed

theorem calculatePath_clear_direct_witness:
  "obstaclesOf exSource exTarget [exSource, exBlock, exTarget] = [exBlock] \<and>
   \<not> isLineIntersectingRect \<lparr>px = 0, py = 100\<rparr> \<lparr>px = 200, py = 100\<rparr> (getBBox exBlock) \<and>
   calculatePath exHighEdge exSource exTarget [exSource, exBlock, exTarget] =
     Some [\<lparr>px = 0, py = 100\<rparr>, \<lparr>px = 200, py = 100\<rparr>] \<and>
   calculatePath exHighEdge exSource exTarget [] =
     Some [\<lparr>px = 0, py = 100\<rparr>, \<lparr>px = 200, py = 100\<rparr>]"
proof -
  have s: "resolveStart exHighEdge exSource = Some \<lparr>px = 0, py = 100\<rparr>"
    by (simp add: resolveStart_def exHighEdge_def)
  have e: "resolveEnd exHighEdge exTarget = Some \<lparr>px = 200, py = 100\<rparr>"
    by (simp add: resolveEnd_def exHighEdge_def)
  have obs: "obstaclesOf exSource exTarget [exSource, exBlock, exTarget] = [exBlock]"
    by (simp add: obstaclesOf_def exSource_def exBlock_def exTarget_def)
  have miss: "\<not> isLineIntersectingRect \<lparr>px = 0, py = 100\<rparr> \<lparr>px = 200, py = 100\<rparr> (getBBox exBlock)"
    by (simp add: isLineIntersectingRect_def segments_def doLineSegmentsIntersect_def
          orientation_def onSegment_def exBlock_def)
  have none: "obstaclesOf exSource exTarget [] = []"
    by (simp add: obstaclesOf_def)
  show ?thesis
    using obs miss
      calculatePath_clear_direct [OF s e, of "[exSource, exBlock, exTarget]"]
      calculatePath_clear_direct [OF s e, of "[]"] none
    by simp
qed

text \<open>
  C6: if the start or the end point is unavailable (the edge has none and the node
  reports no anchor position), \<open>calculatePath\<close> computes no geometry and returns the
  edge's current \<open>pointsList\<close> as it is.
\<close>

theorem calculatePath_missing_anchor:
  "resolveStart edge sourceNode = None \<or> resolveEnd edge targetNode = None \<Longrightarrow>
     calculatePath edge sourceNode targetNode allNodes = pointsList edge"
  by (auto simp: calculatePath_def split: option.splits)

theorem calculatePath_missing_anchor_witness:
  "resolveStart exUnanchoredEdge exNoAnchor = None \<and>
   calculatePath exUnanchoredEdge exNoAnchor exTarget [exNoAnchor, exBlock, exTarget] =
     Some [\<lparr>px = 0, py = 0\<rparr>, \<lparr>px = 100, py = 40\<rparr>, \<lparr>px = 200, py = 0\<rparr>]"
proof -
  have s: "resolveStart exUnanchoredEdge exNoAnchor = None"
    by (simp add: resolveStart_def exUnanchoredEdge_def exNoAnchor_def)
  show ?thesis
    using s calculatePath_missing_anchor
      [of exUnanchoredEdge exNoAnchor exTarget "[exNoAnchor, exBlock, exTarget]"]
    by (simp add: exUnanchoredEdge_def)
qed

text \<open>
  C8: a zero-length segment is tested as a point: it intersects the rectangle iff the
  point lies within the rectangle's inclusive bounds. Hence routing with coincident
  start and end point that no obstacle contains returns the two-point path of that
  point, e.g. \<open>[(0,0),(0,0)]\<close>.
\<close>

theorem zero_length_segment_is_point_test:
  "isLineIntersectingRect p p r = pointInRect p r \<and>
   (resolveStart edge sourceNode = Some p \<and> resolveEnd edge targetNode = Some p \<and>
    (\<forall>n \<in> set (obstaclesOf sourceNode targetNode allNodes). \<not> pointInRect p (getBBox n))
    \<longrightarrow> calculatePath edge sourceNode targetNode allNodes = Some [p, p])"
proof -
  have zero: "isLineIntersectingRect q q r' = pointInRect q r'" for q r'
    by (auto simp: isLineIntersectingRect_def pointInRect_def)
  have "calculatePath edge sourceNode targetNode allNodes = Some [p, p]"
    if "resolveStart edge sourceNode = Some p" "resolveEnd edge targetNode = Some p"
      "\<forall>n \<in> set (obstaclesOf sourceNode targetNode allNodes). \<not> pointInRect p (getBBox n)"
  proof -
    have "\<not> pathIsObstructed (obstaclesOf sourceNode targetNode allNodes) p p"
      using that(3) by (simp add: pathIsObstructed_direct list_ex_iff zero)
    then show ?thesis using that(1,2) by (simp add: calculatePath_resolved routeBetween_clear)
  qed
  with zero show ?thesis by blast
qed

theorem zero_length_segment_is_point_test_witness:
  "\<not> pointInRect \<lparr>px = 0, py = 0\<rparr> (getBBox exBlock) \<and>
   \<not> isLineIntersectingRect \<lparr>px = 0, py = 0\<rparr> \<lparr>px = 0, py = 0\<rparr> (getBBox exBlock) \<and>
   calculatePath exPointEdge exSource exTarget [exSource, exBlock, exTarget] =
     Some [\<lparr>px = 0, py = 0\<rparr>, \<lparr>px = 0, py = 0\<rparr>]"
proof -
  have s: "resolveStart exPointEdge exSource = Some \<lparr>px = 0, py = 0\<rparr>"
    by (simp add: resolveStart_def exPointEdge_def)
  have e: "resolveEnd exPointEdge exTarget = Some \<lparr>px = 0, py = 0\<rparr>"
    by (simp add: resolveEnd_def exPointEdge_def)
  have obs: "obstaclesOf exSource exTarget [exSource, exBlock, exTarget] = [exBlock]"
    by (simp add: obstaclesOf_def exSource_def exBlock_def exTarget_def)
  have out: "\<not> pointInRect \<lparr>px = 0, py = 0\<rparr> (getBBox exBlock)"
    by (simp add: pointInRect_def exBlock_def)
  show ?thesis
    using s e obs out
      zero_length_segment_is_point_test
        [of "\<lparr>px = 0, py = 0\<rparr>" "getBBox exBlock" exPointEdge exSource exTarget
            "[exSource, exBlock, exTarget]"]
    by simp
qed

text \<open>
  C9: whenever the start and end point are defined and the direct path is obstructed,
  the single-bend search assigns a best path (its minimum is at most the finite count
  of the first candidate evaluated, the horizontal-first bend at \<open>dx = 0\<close>, \<open>dy = 20\<close>),
  so the final fallback to the edge's \<open>pointsList\<close> is never reached: the result is
  the best path of the search, a candidate of exactly 3 or 4 points.
\<close>

theorem obstructed_search_assigns_best:
  assumes "resolveStart edge sourceNode = Some s" and "resolveEnd edge targetNode = Some e"
    and "pathIsObstructed (obstaclesOf sourceNode targetNode allNodes) s e"
  shows "bestPath (singleBendSearch (obstaclesOf sourceNode targetNode allNodes) True s e
             initialSearch) \<noteq> None \<and>
         minObstructions (singleBendSearch (obstaclesOf sourceNode targetNode allNodes) True s e
             initialSearch)
           \<le> enat (checkAndCountObstructions (obstaclesOf sourceNode targetNode allNodes)
                  (path1 s e 0 20)) \<and>
         (\<exists>p. calculatePath edge sourceNode targetNode allNodes = Some p \<and>
              bestPath (bendSearch (obstaclesOf sourceNode targetNode allNodes) True s e) = Some p \<and>
              p \<in> set (singleBendCandidates s e @ doubleBendCandidates s e) \<and>
              (length p = 3 \<or> length p = 4))"
proof -
  let ?obs = "obstaclesOf sourceNode targetNode allNodes"
  let ?st1 = "singleBendSearch ?obs True s e initialSearch"
  from singleBendSearch_assigns [of ?obs s e] have assigned: "bestPath ?st1 \<noteq> None" by auto
  have "minObstructions ?st1 = 0 \<or>
      minObstructions ?st1 \<le> enat (checkAndCountObstructions ?obs (path1 s e 0 20))"
    using singleBendSearch_improves [of ?obs s e initialSearch] first_candidates(1) [of s e]
    unfolding improves_def by blast
  then have bound: "minObstructions ?st1 \<le> enat (checkAndCountObstructions ?obs (path1 s e 0 20))"
    by auto
  from bendSearch_best [of ?obs s e] obtain p where
    p: "bestPath (bendSearch ?obs True s e) = Some p"
       "p \<in> set (singleBendCandidates s e) \<union> set (doubleBendCandidates s e)"
    by blast
  have res: "calculatePath edge sourceNode targetNode allNodes = Some p"
    using assms(1,2) routeBetween_obstructed [OF assms(3), of edge] p(1)
    by (simp add: calculatePath_resolved)
  have "length p = 3 \<or> length p = 4" using candidate_shape [OF p(2)] by simp
  with assigned bound res p show ?thesis by auto
qed

theorem obstructed_search_assigns_best_witness:
  "pathIsObstructed (obstaclesOf exSource exTarget [exSource, exBlock, exTarget])
     \<lparr>px = 0, py = 0\<rparr> \<lparr>px = 200, py = 0\<rparr> \<and>
   calculatePath exEdge exSource exTarget [exSource, exBlock, exTarget] =
     Some [\<lparr>px = 0, py = 0\<rparr>, \<lparr>px = 100, py = 40\<rparr>, \<lparr>px = 200, py = 0\<rparr>]"
proof -
  have s: "resolveStart exEdge exSource = Some \<lparr>px = 0, py = 0\<rparr>"
    by (simp add: resolveStart_def exEdge_def)
  have e: "resolveEnd exEdge exTarget = Some \<lparr>px = 200, py = 0\<rparr>"
    by (simp add: resolveEnd_def exEdge_def)
  have obs: "obstaclesOf exSource exTarget [exSource, exBlock, exTarget] = [exBlock]"
    by (simp add: obstaclesOf_def exSource_def exBlock_def exTarget_def)
  have hit: "pathIsObstructed (obstaclesOf exSource exTarget [exSource, exBlock, exTarget])
      \<lparr>px = 0, py = 0\<rparr> \<lparr>px = 200, py = 0\<rparr>"
    unfolding obs
    by (simp add: pathIsObstructed_direct isLineIntersectingRect_def segments_def
          doLineSegmentsIntersect_def orientation_def onSegment_def exBlock_def)
  show ?thesis
    using hit obstructed_search_assigns_best [OF s e hit] exBlock_search
    unfolding obs by auto
qed

text \<open>
  C3 (as stated: the count used to rank candidates is the sum over all pairs of a
  segment and an obstacle). It is not: for the path (0,0), (50,20), (100,0) and the
  one box (-10,-10)-(60,30), which both segments intersect, the code counts 1 and the
  sum over the pairs is 2.
\<close>

theorem ranking_count_counterexample:
  "checkAndCountObstructions [exCover]
     [\<lparr>px = 0, py = 0\<rparr>, \<lparr>px = 50, py = 20\<rparr>, \<lparr>px = 100, py = 0\<rparr>] = 1 \<and>
   pathObstructionCount [\<lparr>px = 0, py = 0\<rparr>, \<lparr>px = 50, py = 20\<rparr>, \<lparr>px = 100, py = 0\<rparr>]
     [getBBox exCover] = 2"
  by (simp add: checkAndCountObstructions_def pathObstructionCount_def exCover_def
        isLineIntersectingRect_def)

text \<open>
  C3 (amended): the count used to rank candidates is the number of obstacles that at
  least one segment of the path intersects; an obstacle crossed by two segments
  contributes 1. It never exceeds the sum over the pairs of a segment and an obstacle.
\<close>

theorem ranking_count_is_obstacles_hit:
  "checkAndCountObstructions obstacles p =
     length (filter (\<lambda>n. list_ex (\<lambda>seg. isLineIntersectingRect (fst seg) (snd seg) (getBBox n))
                          (zip p (tl p))) obstacles) \<and>
   checkAndCountObstructions obstacles p \<le> pathObstructionCount p (map getBBox obstacles)"
proof -
  have "isPathIntersectingNode p =
      (\<lambda>n. list_ex (\<lambda>seg. isLineIntersectingRect (fst seg) (snd seg) (getBBox n)) (zip p (tl p)))"
    by (rule ext) (rule isPathIntersectingNode_pairs)
  then have "checkAndCountObstructions obstacles p =
     length (filter (\<lambda>n. list_ex (\<lambda>seg. isLineIntersectingRect (fst seg) (snd seg) (getBBox n))
                          (zip p (tl p))) obstacles)"
    unfolding checkAndCountObstructions_filter by simp
  moreover have "checkAndCountObstructions obstacles p \<le> pathObstructionCount p (map getBBox obstacles)"
    unfolding checkAndCountObstructions_filter by (rule count_le_pathObstructionCount)
  ultimately show ?thesis by blast
qed

text \<open>
  C2: the obstruction count of the returned path, as section 4.1 defines it, is at most
  that of the direct path over the same obstacles. The code breaks this. Once the
  direct path is obstructed its count is never recorded: \<open>minObstructions\<close> starts at
  Infinity, so the first bend candidate always replaces it, the branch commented
  "Found a partially better path" returns a path that was never compared with the
  direct line, and the last return, commented "Fallback to the original points or a
  direct line if all else fails", cannot be reached. For the edge from (0,0) to
  (100,0) and the box (-10,-10)-(60,30) over the start point, the direct path has
  count 1, all candidates intersect the box, the first one is kept, and both of its
  segments intersect the box: count 2.
\<close>

theorem obstruction_monotonicity_counterexample:
  "calculatePath exShortEdge exSource exTarget [exSource, exCover, exTarget] =
     Some [\<lparr>px = 0, py = 0\<rparr>, \<lparr>px = 50, py = 20\<rparr>, \<lparr>px = 100, py = 0\<rparr>] \<and>
   pathObstructionCount [\<lparr>px = 0, py = 0\<rparr>, \<lparr>px = 50, py = 20\<rparr>, \<lparr>px = 100, py = 0\<rparr>]
     (map getBBox (obstaclesOf exSource exTarget [exSource, exCover, exTarget])) = 2 \<and>
   pathObstructionCount [\<lparr>px = 0, py = 0\<rparr>, \<lparr>px = 100, py = 0\<rparr>]
     (map getBBox (obstaclesOf exSource exTarget [exSource, exCover, exTarget])) = 1"
proof -
  have s: "resolveStart exShortEdge exSource = Some \<lparr>px = 0, py = 0\<rparr>"
    by (simp add: resolveStart_def exShortEdge_def)
  have e: "resolveEnd exShortEdge exTarget = Some \<lparr>px = 100, py = 0\<rparr>"
    by (simp add: resolveEnd_def exShortEdge_def)
  have obs: "obstaclesOf exSource exTarget [exSource, exCover, exTarget] = [exCover]"
    by (simp add: obstaclesOf_def exSource_def exCover_def exTarget_def)
  have inside: "pointInRect \<lparr>px = 0, py = 0\<rparr> (getBBox exCover)"
    by (simp add: pointInRect_def exCover_def)
  have "calculatePath exShortEdge exSource exTarget [exSource, exCover, exTarget] =
      Some (path1 \<lparr>px = 0, py = 0\<rparr> \<lparr>px = 100, py = 0\<rparr> 0 20)"
    unfolding calculatePath_resolved [OF s e] obs by (rule single_cover_route [OF inside])
  then have "calculatePath exShortEdge exSource exTarget [exSource, exCover, exTarget] =
      Some [\<lparr>px = 0, py = 0\<rparr>, \<lparr>px = 50, py = 20\<rparr>, \<lparr>px = 100, py = 0\<rparr>]"
    by (simp add: path1_def)
  moreover have "pathObstructionCount
      [\<lparr>px = 0, py = 0\<rparr>, \<lparr>px = 50, py = 20\<rparr>, \<lparr>px = 100, py = 0\<rparr>] [getBBox exCover] = 2"
    by (simp add: pathObstructionCount_def exCover_def isLineIntersectingRect_def)
  moreover have "pathObstructionCount
      [\<lparr>px = 0, py = 0\<rparr>, \<lparr>px = 100, py = 0\<rparr>] [getBBox exCover] = 1"
    by (simp add: pathObstructionCount_def exCover_def isLineIntersectingRect_def)
  ultimately show ?thesis unfolding obs by simp
qed

text \<open>
  The same defect in the count the code itself ranks by (obstacles intersected, each
  once). Around the diagonal edge of \<open>exRing\<close> the direct path intersects one node, the
  bend of every candidate lies in a second one, and the path returned intersects two:
  it is worse than the direct line it replaces.
\<close>

lemma obstacles_hit_not_monotone:
  "calculatePath exDiagonalEdge exSource exTarget (exSource # exRing @ [exTarget]) =
     Some [\<lparr>px = 0, py = 0\<rparr>, \<lparr>px = 5, py = 20\<rparr>, \<lparr>px = 10, py = 10\<rparr>] \<and>
   checkAndCountObstructions (obstaclesOf exSource exTarget (exSource # exRing @ [exTarget]))
     [\<lparr>px = 0, py = 0\<rparr>, \<lparr>px = 5, py = 20\<rparr>, \<lparr>px = 10, py = 10\<rparr>] = 2 \<and>
   checkAndCountObstructions (obstaclesOf exSource exTarget (exSource # exRing @ [exTarget]))
     [\<lparr>px = 0, py = 0\<rparr>, \<lparr>px = 10, py = 10\<rparr>] = 1"
proof -
  let ?s = "\<lparr>px = 0, py = 0\<rparr>" and ?e = "\<lparr>px = 10, py = 10\<rparr>"
  have s: "resolveStart exDiagonalEdge exSource = Some ?s"
    by (simp add: resolveStart_def exDiagonalEdge_def)
  have e: "resolveEnd exDiagonalEdge exTarget = Some ?e"
    by (simp add: resolveEnd_def exDiagonalEdge_def)
  have obs: "obstaclesOf exSource exTarget (exSource # exRing @ [exTarget]) = exRing"
    by (simp add: obstaclesOf_def exRing_def exSource_def exTarget_def
          exPin_def exRight_def exLeft_def exTop_def exBottom_def exPost_def)
  have first: "path1 ?s ?e 0 20 = [?s, \<lparr>px = 5, py = 20\<rparr>, ?e]"
    by (simp add: path1_def)
  have hit: "pathIsObstructed exRing ?s ?e"
    unfolding pathIsObstructed_direct list_ex_iff
    by (rule bexI [of _ exPin])
       (simp_all add: endpoint_inside pointInRect_def exPin_def exRing_def)
  have "bestPath (bendSearch exRing True ?s ?e) = Some (path1 ?s ?e 0 20)"
  proof (rule bendSearch_first_wins)
    show "0 < checkAndCountObstructions exRing (path1 ?s ?e 0 20)"
      unfolding first by (simp add: exRing_counts)
    show "checkAndCountObstructions exRing (path1 ?s ?e 0 20) \<le> checkAndCountObstructions exRing c"
      if "c \<in> set (singleBendCandidates ?s ?e) \<union> set (doubleBendCandidates ?s ?e)" for c
      unfolding first using exRing_two_hits [OF that] by (simp add: exRing_counts)
  qed
  then have "calculatePath exDiagonalEdge exSource exTarget (exSource # exRing @ [exTarget]) =
      Some [?s, \<lparr>px = 5, py = 20\<rparr>, ?e]"
    unfolding calculatePath_resolved [OF s e] obs first
    using routeBetween_obstructed [OF hit, of exDiagonalEdge] by simp
  then show ?thesis unfolding obs by (simp add: exRing_counts)
qed

text \<open>
  What the search does establish: with start and end defined, a clear direct path is
  returned as it is, with obstruction count 0; for an obstructed one the returned path
  is a bend candidate of the lattice, and the number of obstacles it intersects is at
  most that of every single-bend candidate (\<open>dx = dy = 0\<close> excepted) and of every
  double-bend candidate. The comparison with the direct path is what is missing.
\<close>

lemma calculatePath_least_obstructed:
  assumes "resolveStart edge sourceNode = Some s" and "resolveEnd edge targetNode = Some e"
  shows "(\<not> pathIsObstructed (obstaclesOf sourceNode targetNode allNodes) s e \<longrightarrow>
            calculatePath edge sourceNode targetNode allNodes = Some [s, e] \<and>
            pathObstructionCount [s, e]
              (map getBBox (obstaclesOf sourceNode targetNode allNodes)) = 0) \<and>
         (pathIsObstructed (obstaclesOf sourceNode targetNode allNodes) s e \<longrightarrow>
            (\<exists>p. calculatePath edge sourceNode targetNode allNodes = Some p \<and>
                 p \<in> set (singleBendCandidates s e @ doubleBendCandidates s e) \<and>
                 (\<forall>c \<in> set (singleBendCandidates s e @ doubleBendCandidates s e).
                    checkAndCountObstructions (obstaclesOf sourceNode targetNode allNodes) p
                      \<le> checkAndCountObstructions (obstaclesOf sourceNode targetNode allNodes) c)))"
proof (intro conjI impI)
  let ?obs = "obstaclesOf sourceNode targetNode allNodes"
  assume clear: "\<not> pathIsObstructed ?obs s e"
  show "calculatePath edge sourceNode targetNode allNodes = Some [s, e]"
    using assms clear by (simp add: calculatePath_resolved routeBetween_clear)
  have "\<forall>n \<in> set ?obs. \<not> isLineIntersectingRect s e (getBBox n)"
    using clear by (simp add: pathIsObstructed_direct list_ex_iff)
  then have "sum_list (map (\<lambda>r. if isLineIntersectingRect s e r then 1 else (0::nat))
      (map getBBox ?obs)) = 0"
    by (induction ?obs) simp_all
  then show "pathObstructionCount [s, e] (map getBBox ?obs) = 0"
    by (simp add: pathObstructionCount_def)
next
  let ?obs = "obstaclesOf sourceNode targetNode allNodes"
  assume hit: "pathIsObstructed ?obs s e"
  from bendSearch_best [of ?obs s e] obtain p where
    p: "bestPath (bendSearch ?obs True s e) = Some p"
       "p \<in> set (singleBendCandidates s e) \<union> set (doubleBendCandidates s e)"
       "\<forall>c \<in> set (singleBendCandidates s e) \<union> set (doubleBendCandidates s e).
          checkAndCountObstructions ?obs p \<le> checkAndCountObstructions ?obs c"
    by blast
  have "calculatePath edge sourceNode targetNode allNodes = Some p"
    using assms routeBetween_obstructed [OF hit, of edge] p(1)
    by (simp add: calculatePath_resolved)
  with p(2,3) show "\<exists>p. calculatePath edge sourceNode targetNode allNodes = Some p \<and>
       p \<in> set (singleBendCandidates s e @ doubleBendCandidates s e) \<and>
       (\<forall>c \<in> set (singleBendCandidates s e @ doubleBendCandidates s e).
          checkAndCountObstructions ?obs p \<le> checkAndCountObstructions ?obs c)"
    by auto
qed

text \<open>
  The same at two inputs: the edge that passes above the block keeps the direct path,
  with count 0; the edge through the block gets a path that intersects no obstacle, as
  the candidate with \<open>dx = 0\<close>, \<open>dy = 40\<close> intersects none.
\<close>

lemma calculatePath_least_obstructed_witness:
  "\<not> pathIsObstructed (obstaclesOf exSource exTarget [exSource, exBlock, exTarget])
       \<lparr>px = 0, py = 100\<rparr> \<lparr>px = 200, py = 100\<rparr> \<and>
   calculatePath exHighEdge exSource exTarget [exSource, exBlock, exTarget] =
     Some [\<lparr>px = 0, py = 100\<rparr>, \<lparr>px = 200, py = 100\<rparr>] \<and>
   pathIsObstructed (obstaclesOf exSource exTarget [exSource, exBlock, exTarget])
       \<lparr>px = 0, py = 0\<rparr> \<lparr>px = 200, py = 0\<rparr> \<and>
   (\<exists>p. calculatePath exEdge exSource exTarget [exSource, exBlock, exTarget] = Some p \<and>
        checkAndCountObstructions [exBlock] p = 0)"
proof -
  let ?nodes = "[exSource, exBlock, exTarget]"
  have hs: "resolveStart exHighEdge exSource = Some \<lparr>px = 0, py = 100\<rparr>"
    by (simp add: resolveStart_def exHighEdge_def)
  have he: "resolveEnd exHighEdge exTarget = Some \<lparr>px = 200, py = 100\<rparr>"
    by (simp add: resolveEnd_def exHighEdge_def)
  have s: "resolveStart exEdge exSource = Some \<lparr>px = 0, py = 0\<rparr>"
    by (simp add: resolveStart_def exEdge_def)
  have e: "resolveEnd exEdge exTarget = Some \<lparr>px = 200, py = 0\<rparr>"
    by (simp add: resolveEnd_def exEdge_def)
  have obs: "obstaclesOf exSource exTarget ?nodes = [exBlock]"
    by (simp add: obstaclesOf_def exSource_def exBlock_def exTarget_def)
  have clear: "\<not> pathIsObstructed (obstaclesOf exSource exTarget ?nodes)
      \<lparr>px = 0, py = 100\<rparr> \<lparr>px = 200, py = 100\<rparr>"
    unfolding obs
    by (simp add: pathIsObstructed_direct isLineIntersectingRect_def segments_def
          doLineSegmentsIntersect_def orientation_def onSegment_def exBlock_def)
  have hit: "pathIsObstructed (obstaclesOf exSource exTarget ?nodes)
      \<lparr>px = 0, py = 0\<rparr> \<lparr>px = 200, py = 0\<rparr>"
    unfolding obs
    by (simp add: pathIsObstructed_direct isLineIntersectingRect_def segments_def
          doLineSegmentsIntersect_def orientation_def onSegment_def exBlock_def)
  have cand: "path1 \<lparr>px = 0, py = 0\<rparr> \<lparr>px = 200, py = 0\<rparr> 0 40
      \<in> set (singleBendCandidates \<lparr>px = 0, py = 0\<rparr> \<lparr>px = 200, py = 0\<rparr> @
             doubleBendCandidates \<lparr>px = 0, py = 0\<rparr> \<lparr>px = 200, py = 0\<rparr>)"
    by (simp add: singleBendCandidates_def offsets_def)
  have free: "checkAndCountObstructions [exBlock]
      (path1 \<lparr>px = 0, py = 0\<rparr> \<lparr>px = 200, py = 0\<rparr> 0 40) = 0"
    by (simp add: checkAndCountObstructions_def path1_def isLineIntersectingRect_def
          segments_def doLineSegmentsIntersect_def orientation_def onSegment_def exBlock_def)
  from calculatePath_least_obstructed [OF hs he, of ?nodes] clear
  have high: "calculatePath exHighEdge exSource exTarget ?nodes =
      Some [\<lparr>px = 0, py = 100\<rparr>, \<lparr>px = 200, py = 100\<rparr>]"
    by blast
  from calculatePath_least_obstructed [OF s e, of ?nodes] hit obtain p where
    p: "calculatePath exEdge exSource exTarget ?nodes = Some p"
       "\<forall>c \<in> set (singleBendCandidates \<lparr>px = 0, py = 0\<rparr> \<lparr>px = 200, py = 0\<rparr> @
                   doubleBendCandidates \<lparr>px = 0, py = 0\<rparr> \<lparr>px = 200, py = 0\<rparr>).
          checkAndCountObstructions (obstaclesOf exSource exTarget ?nodes) p
            \<le> checkAndCountObstructions (obstaclesOf exSource exTarget ?nodes) c"
    by blast
  from p(2) cand have "checkAndCountObstructions [exBlock] p
      \<le> checkAndCountObstructions [exBlock] (path1 \<lparr>px = 0, py = 0\<rparr> \<lparr>px = 200, py = 0\<rparr> 0 40)"
    unfolding obs by blast
  then have "checkAndCountObstructions [exBlock] p = 0" using free by simp
  with clear high hit p(1) show ?thesis by blast
qed

text \<open>
  C4: no path returned contains two consecutive equal points. \<open>calculatePath\<close> has no
  step that removes them (the sibling's \<open>updateEdgePath\<close> has): for the vertical edge
  from (0,0) to (0,20) whose start point lies in another node's box, the first
  candidate, whose bend (0,20) is the end point itself, is returned as it is; the
  sibling's filter would drop the repeated point.
\<close>

theorem calculatePath_returns_consecutive_duplicate:
  "calculatePath exVerticalEdge exSource exTarget [exSource, exSmall, exTarget] =
     Some [\<lparr>px = 0, py = 0\<rparr>, \<lparr>px = 0, py = 20\<rparr>, \<lparr>px = 0, py = 20\<rparr>] \<and>
   \<not> distinct_adj [\<lparr>px = 0, py = 0\<rparr>, \<lparr>px = 0, py = 20\<rparr>, \<lparr>px = 0, py = 20\<rparr>] \<and>
   filterConsecutiveDuplicates [\<lparr>px = 0, py = 0\<rparr>, \<lparr>px = 0, py = 20\<rparr>, \<lparr>px = 0, py = 20\<rparr>] =
     [\<lparr>px = 0, py = 0\<rparr>, \<lparr>px = 0, py = 20\<rparr>]"
proof -
  have s: "resolveStart exVerticalEdge exSource = Some \<lparr>px = 0, py = 0\<rparr>"
    by (simp add: resolveStart_def exVerticalEdge_def)
  have e: "resolveEnd exVerticalEdge exTarget = Some \<lparr>px = 0, py = 20\<rparr>"
    by (simp add: resolveEnd_def exVerticalEdge_def)
  have obs: "obstaclesOf exSource exTarget [exSource, exSmall, exTarget] = [exSmall]"
    by (simp add: obstaclesOf_def exSource_def exSmall_def exTarget_def)
  have inside: "pointInRect \<lparr>px = 0, py = 0\<rparr> (getBBox exSmall)"
    by (simp add: pointInRect_def exSmall_def)
  have "calculatePath exVerticalEdge exSource exTarget [exSource, exSmall, exTarget] =
      Some (path1 \<lparr>px = 0, py = 0\<rparr> \<lparr>px = 0, py = 20\<rparr> 0 20)"
    unfolding calculatePath_resolved [OF s e] obs by (rule single_cover_route [OF inside])
  then have "calculatePath exVerticalEdge exSource exTarget [exSource, exSmall, exTarget] =
      Some [\<lparr>px = 0, py = 0\<rparr>, \<lparr>px = 0, py = 20\<rparr>, \<lparr>px = 0, py = 20\<rparr>]"
    by (simp add: path1_def)
  then show ?thesis by (simp add: filterConsecutiveDuplicates_remdups_adj)
qed

end
